theory Spec2Isabelle
  imports Main
begin

section \<open>Data model of the virtual file system host (VfsHost.ts)\<close>

text \<open>
  A JavaScript \<open>URL\<close> object is a record of the four properties the host reads:
  \<open>href\<close>, \<open>protocol\<close>, \<open>host\<close> and \<open>pathname\<close>. The URL parser itself belongs to
  the platform: \<open>new URL(s)\<close> and \<open>new URL(s, base)\<close> are the fields \<open>new_URL\<close> and
  \<open>new_URL_base\<close> of the record \<open>platform\<close> below, which return \<open>None\<close> where the
  constructor throws.
\<close>

record url =
  href :: string
  protocol :: string
  host :: string
  pathname :: string

text \<open>
  The value \<open>memoizedFetch\<close> resolves to (memoizedFetch.js): the text of the response, its
  final URL and its headers, with the names of the headers in lower case.
\<close>

record response =
  resp_text :: string
  resp_url :: string
  resp_headers :: "string \<rightharpoonup> string"

text \<open>
  \<open>interface ImportMap\<close>: both fields are optional objects. An object is the list of its
  entries in the order \<open>Object.entries\<close> enumerates them.
\<close>

record ImportMap =
  im_imports :: "(string \<times> url) list option"
  im_scopes :: "(string \<times> (string \<times> url) list) list option"

text \<open>
  What the syntax tree of \<open>ts.createSourceFile\<close> gives to \<open>transformTsNode\<close>: the kind of
  a node, for an import or export declaration its module specifier and for a call
  expression whether the callee is the \<open>import\<close> keyword and its first argument, and the
  children of the node. A specifier or argument is present here only if it is a string
  literal; it carries \<open>getFullStart()\<close>, \<open>getEnd()\<close> and \<open>text\<close>.
\<close>

record literal =
  fullStart :: int
  lit_end :: int
  lit_text :: string

datatype node =
    ImportDeclaration "literal option" "node list"
  | ExportDeclaration "literal option" "node list"
  | CallExpression bool "literal option" "node list"
  | OtherNode "node list"

text \<open>
  A regular-expression match with the \<open>d\<close> flag: the text of capture group 1 and its
  \<open>indices[1]\<close> (absent when \<open>indices\<close> is undefined).
\<close>

record rmatch =
  group1 :: string
  indices1 :: "(int \<times> int) option"

text \<open>
  The \<open>MagicString\<close> of \<open>#transformSourceFile\<close> (the library \<open>magic-string\<close>, imported
  from \<open>esm.sh\<close>) is created from the full text of the file and then receives calls of
  \<open>overwrite(start, end, content)\<close> only, until \<open>toString\<close> is called. What it does is
  determined by the original text and the calls made so far, in their order.
\<close>

type_synonym edit = "int \<times> int \<times> string"

text \<open>
  The platform the host runs on: the URL constructor, \<open>Deno.readTextFile\<close>,
  \<open>memoizedFetch\<close> (both \<open>None\<close> where the promise rejects; \<open>memoizedFetch\<close> is
  \<open>fetch\<close> behind the cache of \<open>memoizeAsync\<close> and rejects when the response is not
  \<open>ok\<close>; what it answers for a URL is taken as given), the three regular
  expressions of \<open>#transformSourceFile\<close> applied to a full text, the tree that
  \<open>ts.createSourceFile\<close> builds from a file name and a text, \<open>parse\<close> of \<open>@std/path\<close>,
  \<open>import.meta.url\<close>, \<open>String.prototype.toLowerCase\<close>, and the library \<open>magic-string\<close>.
  \<open>MagicString_overwrite t calls c\<close> tells whether the call \<open>c\<close> of \<open>overwrite\<close> returns,
  on the \<open>MagicString\<close> of the text \<open>t\<close> that has received the calls \<open>calls\<close> before;
  otherwise it throws, as it does for a range of length zero.
  \<open>MagicString_toString t calls\<close> is the result of \<open>toString\<close> after these calls.
  Within one build the platform answers the same question the same way.
\<close>

record platform =
  new_URL :: "string \<Rightarrow> url option"
  new_URL_base :: "string \<Rightarrow> string \<Rightarrow> url option"
  readTextFile :: "url \<Rightarrow> string option"
  memoizedFetch :: "url \<Rightarrow> response option"
  match_jsxImportSource :: "string \<Rightarrow> rmatch option"
  matchAll_reference_path :: "string \<Rightarrow> rmatch list"
  matchAll_reference_lib :: "string \<Rightarrow> rmatch list"
  createSourceFile :: "string \<Rightarrow> string \<Rightarrow> node"
  path_parse :: "string \<Rightarrow> string \<times> string \<times> string"
  import_meta_url :: string
  toLowerCase :: "string \<Rightarrow> string"
  MagicString_overwrite :: "string \<Rightarrow> edit list \<Rightarrow> edit \<Rightarrow> bool"
  MagicString_toString :: "string \<Rightarrow> edit list \<Rightarrow> string"

text \<open>The fields of a \<open>VfsHost\<close> set by its constructor.\<close>

record VfsHost =
  rootDir :: url
  defaultLibDir :: url
  importMap :: "ImportMap option"

text \<open>
  Every \<open>throw\<close> of the host is a value. \<open>loadFile\<close> wraps whatever it catches in
  \<open>Loading_failed\<close>, \<open>#transformSourceFile\<close> in \<open>Transforming_failed\<close>.
  \<open>Overwrite_failed start end\<close> is what \<open>overwrite\<close> throws.
\<close>

datatype error =
    Invalid_URL string
  | Bare_specifier string string
  | Unsupported_protocol string
  | No_fake_path string
  | Read_failed string
  | Fetch_failed string
  | Overwrite_failed int int
  | Transforming_failed string error
  | Loading_failed string error

section \<open>Strings\<close>

definition startsWith :: "string \<Rightarrow> string \<Rightarrow> bool" where
  "startsWith s p \<longleftrightarrow> take (length p) s = p"

definition endsWith :: "string \<Rightarrow> string \<Rightarrow> bool" where
  "endsWith s p \<longleftrightarrow> length p \<le> length s \<and> drop (length s - length p) s = p"

text \<open>\<open>s.slice(n)\<close> for \<open>0 \<le> n\<close> is \<open>drop n s\<close>; \<open>s.slice(0, -n)\<close> drops the last \<open>n\<close>.\<close>

definition slice_to_minus :: "string \<Rightarrow> nat \<Rightarrow> string" where
  "slice_to_minus s n = take (length s - n) s"

section \<open>Resolving a specifier (\<open>#transformSpecifier\<close>, lines 283 to 338)\<close>

text \<open>The three variables of the search: \<open>resolvedScope\<close>, \<open>resolvedPrefix\<close>, \<open>resolvedUrl\<close>.\<close>

record resolution =
  resolvedScope :: string
  resolvedPrefix :: string
  resolvedUrl :: "url option"

text \<open>The condition of both inner \<open>if\<close>s, lines 294 to 296 and 315 to 317.\<close>

definition entry_matches :: "string \<Rightarrow> string \<Rightarrow> string \<Rightarrow> bool" where
  "entry_matches specifier prefix rp \<longleftrightarrow>
     specifier = prefix \<or>
     (endsWith prefix ''/'' \<and> startsWith specifier prefix \<and> length prefix > length rp)"

text \<open>The loop over \<open>importMap.imports\<close>, lines 288 to 303.\<close>

fun imports_loop ::
  "platform \<Rightarrow> string \<Rightarrow> (string \<times> url) list \<Rightarrow> resolution \<Rightarrow> error + resolution" where
  "imports_loop pf specifier [] r = Inr r"
| "imports_loop pf specifier ((prefix, replacement) # es) r =
     (if entry_matches specifier prefix (resolvedPrefix r) then
        (case new_URL pf (href replacement @ drop (length prefix) specifier) of
           None \<Rightarrow> Inl (Invalid_URL (href replacement @ drop (length prefix) specifier))
         | Some u \<Rightarrow>
             imports_loop pf specifier es (r\<lparr>resolvedPrefix := prefix, resolvedUrl := Some u\<rparr>))
      else imports_loop pf specifier es r)"

text \<open>The loop over the mappings of one scope, lines 313 to 325.\<close>

fun mappings_loop ::
  "platform \<Rightarrow> string \<Rightarrow> string \<Rightarrow> (string \<times> url) list \<Rightarrow> resolution \<Rightarrow> error + resolution"
  where
  "mappings_loop pf specifier scope [] r = Inr r"
| "mappings_loop pf specifier scope ((prefix, replacement) # es) r =
     (if entry_matches specifier prefix (resolvedPrefix r) then
        (case new_URL pf (href replacement @ drop (length prefix) specifier) of
           None \<Rightarrow> Inl (Invalid_URL (href replacement @ drop (length prefix) specifier))
         | Some u \<Rightarrow>
             mappings_loop pf specifier scope es
               (r\<lparr>resolvedScope := scope, resolvedPrefix := prefix, resolvedUrl := Some u\<rparr>))
      else mappings_loop pf specifier scope es r)"

text \<open>
  The loop over \<open>importMap.scopes\<close>, lines 306 to 327. The test on the scope is made once,
  before the mappings of the scope are searched.
\<close>

fun scopes_loop ::
  "platform \<Rightarrow> url \<Rightarrow> string \<Rightarrow> (string \<times> (string \<times> url) list) list \<Rightarrow> resolution \<Rightarrow>
   error + resolution" where
  "scopes_loop pf sourceUrl specifier [] r = Inr r"
| "scopes_loop pf sourceUrl specifier ((scope, mappings) # ss) r =
     (if startsWith (href sourceUrl) scope \<and> length scope > length (resolvedScope r) then
        (case mappings_loop pf specifier scope mappings r of
           Inl e \<Rightarrow> Inl e
         | Inr r' \<Rightarrow> scopes_loop pf sourceUrl specifier ss r')
      else scopes_loop pf sourceUrl specifier ss r)"

text \<open>\<open>isBareSpecifier\<close>, lines 452 to 459.\<close>

definition isBareSpecifier :: "platform \<Rightarrow> string \<Rightarrow> bool" where
  "isBareSpecifier pf specifier =
     (case new_URL pf specifier of
        Some u \<Rightarrow> False
      | None \<Rightarrow> \<not> startsWith specifier ''.'' \<and> \<not> startsWith specifier ''/'')"

definition imports_of :: "ImportMap option \<Rightarrow> (string \<times> url) list" where
  "imports_of im = (case im of None \<Rightarrow> [] | Some m \<Rightarrow> (case im_imports m of None \<Rightarrow> [] | Some es \<Rightarrow> es))"

definition scopes_of :: "ImportMap option \<Rightarrow> (string \<times> (string \<times> url) list) list" where
  "scopes_of im = (case im of None \<Rightarrow> [] | Some m \<Rightarrow> (case im_scopes m of None \<Rightarrow> [] | Some ss \<Rightarrow> ss))"

definition initial_resolution :: resolution where
  "initial_resolution = \<lparr>resolvedScope = [], resolvedPrefix = [], resolvedUrl = None\<rparr>"

text \<open>
  Lines 283 to 338 of \<open>#transformSpecifier\<close>: the URL handed to \<open>loadFile\<close>, or the error
  thrown before that call.
\<close>

definition resolveSpecifier :: "platform \<Rightarrow> VfsHost \<Rightarrow> url \<Rightarrow> string \<Rightarrow> error + url" where
  "resolveSpecifier pf this sourceUrl specifier =
     (case imports_loop pf specifier (imports_of (importMap this)) initial_resolution of
        Inl e \<Rightarrow> Inl e
      | Inr r1 \<Rightarrow>
          (case scopes_loop pf sourceUrl specifier (scopes_of (importMap this)) r1 of
             Inl e \<Rightarrow> Inl e
           | Inr r2 \<Rightarrow>
               (case resolvedUrl r2 of
                  Some u \<Rightarrow> Inr u
                | None \<Rightarrow>
                    if isBareSpecifier pf specifier
                    then Inl (Bare_specifier specifier (href sourceUrl))
                    else (case new_URL_base pf specifier (href sourceUrl) of
                            None \<Rightarrow> Inl (Invalid_URL specifier)
                          | Some u \<Rightarrow> Inr u))))"

section \<open>The store and its observable effects\<close>

text \<open>
  The host is a \<open>Map\<close> from strings to strings. Beside the map the state keeps, in program
  order, the \<open>await\<close>s of \<open>loadFile\<close> and \<open>#fetchFile\<close> (each is a point where the
  routine is suspended) and the calls of \<open>has\<close> and \<open>set\<close> of \<open>loadFile\<close>. The trace is
  not read by the program; it is what the ordering and counting properties speak about.
\<close>

datatype event =
    Await_fetchFile string
  | Await_readTextFile string
  | Await_memoizedFetch string
  | Await_transformSourceFile string string
  | Store_has string
  | Store_set string string

record vfs =
  store :: "string \<rightharpoonup> string"
  trace :: "event list"

definition log :: "event list \<Rightarrow> vfs \<Rightarrow> vfs" where
  "log evs s = s\<lparr>trace := trace s @ evs\<rparr>"

definition store_set :: "string \<Rightarrow> string \<Rightarrow> vfs \<Rightarrow> vfs" where
  "store_set k v s = s\<lparr>store := (store s)(k \<mapsto> v), trace := trace s @ [Store_set k v]\<rparr>"

definition is_await :: "event \<Rightarrow> bool" where
  "is_await e = (case e of Store_has p \<Rightarrow> False | Store_set p t \<Rightarrow> False | _ \<Rightarrow> True)"

section \<open>Fetching (\<open>#fetchFile\<close>) and fake paths (\<open>#urlToFakePath\<close>)\<close>

record fetched =
  fetch_text :: string
  fetch_url :: url

text \<open>The test \<open>/\.[cm]?[tj]sx?$/\<close>: the string ends with one of twelve suffixes.\<close>

definition script_extensions :: "string list" where
  "script_extensions =
     concat (map (\<lambda>c. concat (map (\<lambda>t. map (\<lambda>x. ''.'' @ c @ t @ ''s'' @ x) [[], ''x''])
       [''t'', ''j''])) [[], ''c'', ''m''])"

definition test_script_extension :: "string \<Rightarrow> bool" where
  "test_script_extension s = list_ex (endsWith s) script_extensions"

text \<open>The case \<open>"https:"\<close> of \<open>#fetchFile\<close>, lines 120 to 132, with the awaits it makes.\<close>

definition fetchFile_https :: "platform \<Rightarrow> url \<Rightarrow> (error + fetched) \<times> event list" where
  "fetchFile_https pf url =
     (case memoizedFetch pf url of
        None \<Rightarrow> (Inl (Fetch_failed (href url)), [Await_memoizedFetch (href url)])
      | Some resp \<Rightarrow>
          (case resp_headers resp ''x-typescript-types'' of
             Some typesUrl \<Rightarrow>
               (case new_URL_base pf typesUrl (resp_url resp) of
                  None \<Rightarrow> (Inl (Invalid_URL typesUrl), [Await_memoizedFetch (href url)])
                | Some tu \<Rightarrow>
                    (case memoizedFetch pf tu of
                       None \<Rightarrow>
                         (Inl (Fetch_failed (href tu)),
                          [Await_memoizedFetch (href url), Await_memoizedFetch (href tu)])
                     | Some typesResp \<Rightarrow>
                         (let typesRespUrl =
                                (if \<not> endsWith (resp_url typesResp) ''.d.ts''
                                 then resp_url typesResp @ ''.d.ts'' else resp_url typesResp)
                          in (case new_URL pf typesRespUrl of
                                None \<Rightarrow> Inl (Invalid_URL typesRespUrl)
                              | Some u \<Rightarrow> Inr \<lparr>fetch_text = resp_text typesResp, fetch_url = u\<rparr>,
                              [Await_memoizedFetch (href url), Await_memoizedFetch (href tu)]))))
           | None \<Rightarrow>
               (let respUrl =
                      (if \<not> test_script_extension (resp_url resp)
                       then resp_url resp @ ''.ts'' else resp_url resp)
                in (case new_URL pf (resp_url resp) of
                      None \<Rightarrow> Inl (Invalid_URL (resp_url resp))
                    | Some u \<Rightarrow> Inr \<lparr>fetch_text = resp_text resp, fetch_url = u\<rparr>,
                    [Await_memoizedFetch (href url)]))))"

text \<open>
  \<open>#fetchFile\<close>, lines 114 to 144. The cases \<open>"npm:"\<close> and \<open>"jsr:"\<close> call the routine
  again; the first argument bounds the depth of these calls, and \<open>None\<close> means that the
  bound was reached.
\<close>

fun fetchFile :: "nat \<Rightarrow> platform \<Rightarrow> url \<Rightarrow> ((error + fetched) \<times> event list) option" where
  "fetchFile 0 pf url = None"
| "fetchFile (Suc n) pf url =
     (if protocol url = ''file:'' then
        (case readTextFile pf url of
           None \<Rightarrow> Some (Inl (Read_failed (href url)), [Await_readTextFile (href url)])
         | Some t \<Rightarrow>
             Some (Inr \<lparr>fetch_text = t, fetch_url = url\<rparr>, [Await_readTextFile (href url)]))
      else if protocol url = ''https:'' then Some (fetchFile_https pf url)
      else if protocol url = ''npm:'' then
        (case new_URL_base pf (pathname url) ''https://esm.sh/'' of
           None \<Rightarrow> Some (Inl (Invalid_URL (pathname url)), [])
         | Some u \<Rightarrow>
             (case fetchFile n pf u of
                None \<Rightarrow> None
              | Some (r, evs) \<Rightarrow> Some (r, Await_fetchFile (href u) # evs)))
      else if protocol url = ''jsr:'' then
        (case new_URL_base pf (pathname url) ''https://esm.sh/jsr/'' of
           None \<Rightarrow> Some (Inl (Invalid_URL (pathname url)), [])
         | Some u \<Rightarrow>
             (case fetchFile n pf u of
                None \<Rightarrow> None
              | Some (r, evs) \<Rightarrow> Some (r, Await_fetchFile (href u) # evs)))
      else Some (Inl (Unsupported_protocol (protocol url)), []))"

text \<open>\<open>#urlToFakePath\<close>, lines 151 to 160.\<close>

definition urlToFakePath :: "url \<Rightarrow> error + string" where
  "urlToFakePath url =
     (if protocol url = ''file:'' then Inr (pathname url)
      else if protocol url = ''https:'' then Inr (''/https/'' @ host url @ pathname url)
      else Inl (No_fake_path (protocol url)))"

text \<open>\<open>joinUrl\<close>, lines 464 to 469.\<close>

fun joinUrl :: "platform \<Rightarrow> url \<Rightarrow> string list \<Rightarrow> error + url" where
  "joinUrl pf url [] = Inr url"
| "joinUrl pf url (path # paths) =
     (case (if \<not> endsWith (href url) ''/'' then new_URL pf (href url @ ''/'') else Some url) of
        None \<Rightarrow> Inl (Invalid_URL (href url @ ''/''))
      | Some url' \<Rightarrow>
          (case new_URL_base pf path (href url') of
             None \<Rightarrow> Inl (Invalid_URL path)
           | Some u \<Rightarrow> joinUrl pf u paths))"

section \<open>Rewriting a source file\<close>

text \<open>\<open>toFakeJs\<close>, lines 169 to 174.\<close>

definition toFakeJs :: "string \<Rightarrow> string" where
  "toFakeJs specifier =
     (if endsWith specifier ''.d.ts'' then slice_to_minus specifier 5 @ ''.js'' else specifier)"

text \<open>
  The second half of \<open>#transformSpecifier\<close>, lines 340 to 350, after the resolution above:
  the resolved URL is loaded and its fake path returned; whatever was thrown in the
  \<open>try\<close> block is caught and the specifier is returned. The routine never throws.
  \<open>load\<close> stands for \<open>this.loadFile\<close>; its result \<open>None\<close> means that the bound on the
  depth of the recursion was reached.
\<close>

type_synonym loader = "url \<Rightarrow> url option \<Rightarrow> vfs \<Rightarrow> ((error + string) \<times> vfs) option"

definition transformSpecifier ::
  "loader \<Rightarrow> platform \<Rightarrow> VfsHost \<Rightarrow> url \<Rightarrow> string \<Rightarrow> vfs \<Rightarrow> (string \<times> vfs) option" where
  "transformSpecifier load pf this sourceUrl specifier s =
     (case resolveSpecifier pf this sourceUrl specifier of
        Inl e \<Rightarrow> Some (specifier, s)
      | Inr resolved \<Rightarrow>
          (case load resolved None s of
             None \<Rightarrow> None
           | Some (Inl e, s') \<Rightarrow> Some (specifier, s')
           | Some (Inr fakePath, s') \<Rightarrow> Some (fakePath, s')))"

text \<open>
  \<open>loadLibFile\<close>, lines 49 to 71. \<open>joinUrl\<close> is called outside the \<open>try\<close>, so its error
  is thrown; the errors of the two loads are caught.
\<close>

definition lib_fileName :: "platform \<Rightarrow> string \<Rightarrow> string" where
  "lib_fileName pf libName =
     (let fileName = toLowerCase pf libName;
          fileName = (if \<not> startsWith fileName ''lib.'' then ''lib.'' @ fileName else fileName)
      in if \<not> endsWith fileName ''.d.ts'' then fileName @ ''.d.ts'' else fileName)"

definition loadLibFile ::
  "loader \<Rightarrow> platform \<Rightarrow> VfsHost \<Rightarrow> string \<Rightarrow> vfs \<Rightarrow> ((error + unit) \<times> vfs) option" where
  "loadLibFile load pf this libName s =
     (let fileName = lib_fileName pf libName in
      case joinUrl pf (defaultLibDir this) [fileName] of
        Inl e \<Rightarrow> Some (Inl e, s)
      | Inr fileUrl \<Rightarrow>
          (case load fileUrl None s of
             None \<Rightarrow> None
           | Some (Inr p, s1) \<Rightarrow> Some (Inr (), s1)
           | Some (Inl err1, s1) \<Rightarrow>
               (case new_URL_base pf (''dts/'' @ fileName @ ''.txt'') (import_meta_url pf) of
                  None \<Rightarrow> Some (Inr (), s1)
                | Some localFileUrl \<Rightarrow>
                    (case load localFileUrl (Some fileUrl) s1 of
                       None \<Rightarrow> None
                     | Some (r, s2) \<Rightarrow> Some (Inr (), s2)))))"

text \<open>
  The string literals that \<open>transformTsNode\<close> rewrites, in the order in which the walk
  reaches them: the node itself, then its children from left to right. Each literal comes
  with the number of literals that the walk reaches below its node.
\<close>

fun visited_specifiers :: "node \<Rightarrow> (literal \<times> nat) list" where
  "visited_specifiers (ImportDeclaration sp cs) =
     (case sp of None \<Rightarrow> [] | Some l \<Rightarrow> [(l, length (concat (map visited_specifiers cs)))])
     @ concat (map visited_specifiers cs)"
| "visited_specifiers (ExportDeclaration sp cs) =
     (case sp of None \<Rightarrow> [] | Some l \<Rightarrow> [(l, length (concat (map visited_specifiers cs)))])
     @ concat (map visited_specifiers cs)"
| "visited_specifiers (CallExpression is_import arg cs) =
     (if is_import
      then (case arg of None \<Rightarrow> [] | Some l \<Rightarrow> [(l, length (concat (map visited_specifiers cs)))])
      else [])
     @ concat (map visited_specifiers cs)"
| "visited_specifiers (OtherNode cs) = concat (map visited_specifiers cs)"

text \<open>
  One call \<open>text.overwrite(start, end, f(await this.#transformSpecifier(realUrl, specifier)))\<close>:
  the range, the specifier, whether \<open>f\<close> is \<open>toFakeJs\<close> (otherwise \<open>f\<close> is absent), and the
  number of the calls after it that are made below its node (none for the pragma and the
  directives).
\<close>

type_synonym rewrite = "int \<times> int \<times> string \<times> bool \<times> nat"

definition jsx_rewrites :: "platform \<Rightarrow> string \<Rightarrow> rewrite list" where
  "jsx_rewrites pf fullText =
     (case match_jsxImportSource pf fullText of
        None \<Rightarrow> []
      | Some m \<Rightarrow>
          (case indices1 m of
             None \<Rightarrow> []
           | Some (a, b) \<Rightarrow> [(a, b, group1 m @ ''/jsx-runtime'', False, 0)]))"

definition path_rewrites :: "platform \<Rightarrow> string \<Rightarrow> rewrite list" where
  "path_rewrites pf fullText =
     concat (map (\<lambda>m. case indices1 m of None \<Rightarrow> [] | Some (a, b) \<Rightarrow> [(a, b, group1 m, False, 0)])
       (matchAll_reference_path pf fullText))"

definition lib_names :: "platform \<Rightarrow> string \<Rightarrow> string list" where
  "lib_names pf fullText =
     concat (map (\<lambda>m. case indices1 m of None \<Rightarrow> [] | Some i \<Rightarrow> [group1 m])
       (matchAll_reference_lib pf fullText))"

definition node_rewrites :: "platform \<Rightarrow> string \<Rightarrow> string \<Rightarrow> rewrite list" where
  "node_rewrites pf fileName fullText =
     map (\<lambda>(l, below). (fullStart l + 2, lit_end l - 1, lit_text l, True, below))
       (visited_specifiers (createSourceFile pf fileName fullText))"

text \<open>
  The rewrites of one phase, one after the other: the calls that \<open>Promise.all\<close> starts
  together are run here in the order in which they are started, each to its end. The
  \<open>MagicString\<close> is the original text with the calls of \<open>overwrite\<close> made so far. When
  \<open>overwrite\<close> throws, \<open>transformTsNode\<close> does not go on to the children of its node;
  the other calls, which are started already, are run, and the error that \<open>Promise.all\<close>
  throws is the first one.
\<close>

function overwrite_all ::
  "(string \<Rightarrow> vfs \<Rightarrow> (string \<times> vfs) option) \<Rightarrow> platform \<Rightarrow> string \<Rightarrow> rewrite list \<Rightarrow>
   edit list \<Rightarrow> vfs \<Rightarrow> ((error option \<times> edit list) \<times> vfs) option" where
  "overwrite_all tr pf original [] calls s = Some ((None, calls), s)"
| "overwrite_all tr pf original ((a, b, specifier, fake_js, below) # rs) calls s =
     (case tr specifier s of
        None \<Rightarrow> None
      | Some (p, s') \<Rightarrow>
          if MagicString_overwrite pf original calls (a, b, if fake_js then toFakeJs p else p)
          then overwrite_all tr pf original rs
                 (calls @ [(a, b, if fake_js then toFakeJs p else p)]) s'
          else (case overwrite_all tr pf original (drop below rs)
                       (calls @ [(a, b, if fake_js then toFakeJs p else p)]) s' of
                  None \<Rightarrow> None
                | Some ((err, calls'), s'') \<Rightarrow> Some ((Some (Overwrite_failed a b), calls'), s'')))"
  by pat_completeness auto

termination overwrite_all
  by (relation "measure (\<lambda>(tr, pf, original, rs, calls, s). length rs)") auto

text \<open>
  The loads of the \<open>lib\<close> directives. All of them are started; the first error is the one
  that \<open>Promise.all\<close> throws.
\<close>

fun loadLibFiles ::
  "(string \<Rightarrow> vfs \<Rightarrow> ((error + unit) \<times> vfs) option) \<Rightarrow> string list \<Rightarrow> vfs \<Rightarrow>
   ((error + unit) \<times> vfs) option" where
  "loadLibFiles ll [] s = Some (Inr (), s)"
| "loadLibFiles ll (libName # ns) s =
     (case ll libName s of
        None \<Rightarrow> None
      | Some (r, s1) \<Rightarrow>
          (case loadLibFiles ll ns s1 of
             None \<Rightarrow> None
           | Some (r', s2) \<Rightarrow> Some (case r of Inl e \<Rightarrow> Inl e | Inr u \<Rightarrow> r', s2)))"

text \<open>
  \<open>#transformSourceFile\<close>, lines 165 to 268: the pragma, the path directives, the lib
  directives, the tree; each phase is awaited before the next begins, and what a phase
  throws is caught and thrown again as \<open>Transforming_failed\<close>. The routine returns the
  text of the rewritten file.
\<close>

definition transformSourceFile ::
  "loader \<Rightarrow> platform \<Rightarrow> VfsHost \<Rightarrow> url \<Rightarrow> string \<Rightarrow> string \<Rightarrow> vfs \<Rightarrow>
   ((error + string) \<times> vfs) option" where
  "transformSourceFile load pf this realUrl fileName fullText s =
     (let tr = transformSpecifier load pf this realUrl in
      case overwrite_all tr pf fullText (jsx_rewrites pf fullText) [] s of
        None \<Rightarrow> None
      | Some ((Some e, calls1), s1) \<Rightarrow> Some (Inl (Transforming_failed (href realUrl) e), s1)
      | Some ((None, calls1), s1) \<Rightarrow>
          (case overwrite_all tr pf fullText (path_rewrites pf fullText) calls1 s1 of
             None \<Rightarrow> None
           | Some ((Some e, calls2), s2) \<Rightarrow> Some (Inl (Transforming_failed (href realUrl) e), s2)
           | Some ((None, calls2), s2) \<Rightarrow>
               (case loadLibFiles (loadLibFile load pf this) (lib_names pf fullText) s2 of
                  None \<Rightarrow> None
                | Some (Inl e, s3) \<Rightarrow> Some (Inl (Transforming_failed (href realUrl) e), s3)
                | Some (Inr u, s3) \<Rightarrow>
                    (case overwrite_all tr pf fullText (node_rewrites pf fileName fullText)
                            calls2 s3 of
                       None \<Rightarrow> None
                     | Some ((Some e, calls3), s4) \<Rightarrow>
                         Some (Inl (Transforming_failed (href realUrl) e), s4)
                     | Some ((None, calls3), s4) \<Rightarrow>
                         Some (Inr (MagicString_toString pf fullText calls3), s4)))))"

text \<open>\<open>getDefaultLibLocation\<close>, lines 375 to 377.\<close>

definition getDefaultLibLocation :: "VfsHost \<Rightarrow> error + string" where
  "getDefaultLibLocation this = urlToFakePath (defaultLibDir this)"

section \<open>Loading a file (\<open>loadFile\<close>, lines 84 to 104)\<close>

text \<open>
  The first argument bounds the depth of the recursion through \<open>#transformSourceFile\<close>,
  \<open>#transformSpecifier\<close> and \<open>loadLibFile\<close>; \<open>None\<close> means that the bound was reached.
  After the text is stored, line 95 calls \<open>getDefaultLibLocation\<close> for the log message;
  the call is inside the \<open>try\<close>, so what it throws makes the load fail.
\<close>

fun loadFile ::
  "nat \<Rightarrow> platform \<Rightarrow> VfsHost \<Rightarrow> url \<Rightarrow> url option \<Rightarrow> vfs \<Rightarrow> ((error + string) \<times> vfs) option"
  where
  "loadFile 0 pf this url asUrl s = None"
| "loadFile (Suc n) pf this url asUrl s =
     (case fetchFile n pf url of
        None \<Rightarrow> None
      | Some (Inl e, evs) \<Rightarrow>
          Some (Inl (Loading_failed (href url) e), log (Await_fetchFile (href url) # evs) s)
      | Some (Inr f, evs) \<Rightarrow>
          (let s0 = log (Await_fetchFile (href url) # evs) s;
               realUrl = fetch_url f
           in case urlToFakePath (case asUrl of None \<Rightarrow> realUrl | Some a \<Rightarrow> a) of
                Inl e \<Rightarrow> Some (Inl (Loading_failed (href url) e), s0)
              | Inr fakePath \<Rightarrow>
                  if store s0 fakePath \<noteq> None then Some (Inr fakePath, log [Store_has fakePath] s0)
                  else
                    (case transformSourceFile (loadFile n pf this) pf this realUrl fakePath
                            (fetch_text f)
                            (log [Await_transformSourceFile (href realUrl) fakePath]
                               (store_set fakePath [] (log [Store_has fakePath] s0))) of
                       None \<Rightarrow> None
                     | Some (Inl e, s2) \<Rightarrow> Some (Inl (Loading_failed (href url) e), s2)
                     | Some (Inr file_text, s2) \<Rightarrow>
                         (case getDefaultLibLocation this of
                            Inl e \<Rightarrow>
                              Some (Inl (Loading_failed (href url) e),
                                    store_set fakePath file_text s2)
                          | Inr lib \<Rightarrow> Some (Inr fakePath, store_set fakePath file_text s2)))))"

section \<open>Calls of \<open>loadFile\<close> that overlap\<close>

text \<open>
  A call of \<open>loadFile\<close> runs in three pieces, cut where the routine is suspended: from the
  call to the await of \<open>#fetchFile\<close>; from there, with the fetched file, over the test
  \<open>has\<close> and the reserving \<open>set\<close> to the await of \<open>#transformSourceFile\<close>; and from
  there to the return. A task is a call between two pieces. The awaits inside
  \<open>#fetchFile\<close> and inside \<open>#transformSourceFile\<close> are not cut further: the first does
  not touch the store, and the loads inside the second run as in \<open>loadFile\<close> itself.
\<close>

datatype task =
    Called
  | Fetching
  | Transforming string fetched
  | Returned "error + string"

fun task_step ::
  "nat \<Rightarrow> platform \<Rightarrow> VfsHost \<Rightarrow> url \<Rightarrow> url option \<Rightarrow> task \<Rightarrow> vfs \<Rightarrow> (task \<times> vfs) option" where
  "task_step n pf this url asUrl Called s =
     (case fetchFile n pf url of
        None \<Rightarrow> None
      | Some (r, evs) \<Rightarrow> Some (Fetching, log (Await_fetchFile (href url) # evs) s))"
| "task_step n pf this url asUrl Fetching s =
     (case fetchFile n pf url of
        None \<Rightarrow> None
      | Some (Inl e, evs) \<Rightarrow> Some (Returned (Inl (Loading_failed (href url) e)), s)
      | Some (Inr f, evs) \<Rightarrow>
          (let realUrl = fetch_url f
           in case urlToFakePath (case asUrl of None \<Rightarrow> realUrl | Some a \<Rightarrow> a) of
                Inl e \<Rightarrow> Some (Returned (Inl (Loading_failed (href url) e)), s)
              | Inr fakePath \<Rightarrow>
                  if store s fakePath \<noteq> None
                  then Some (Returned (Inr fakePath), log [Store_has fakePath] s)
                  else Some (Transforming fakePath f,
                             log [Await_transformSourceFile (href realUrl) fakePath]
                               (store_set fakePath [] (log [Store_has fakePath] s)))))"
| "task_step n pf this url asUrl (Transforming fakePath f) s =
     (case transformSourceFile (loadFile n pf this) pf this (fetch_url f) fakePath (fetch_text f) s of
        None \<Rightarrow> None
      | Some (Inl e, s2) \<Rightarrow> Some (Returned (Inl (Loading_failed (href url) e)), s2)
      | Some (Inr file_text, s2) \<Rightarrow>
          (case getDefaultLibLocation this of
             Inl e \<Rightarrow>
               Some (Returned (Inl (Loading_failed (href url) e)), store_set fakePath file_text s2)
           | Inr lib \<Rightarrow> Some (Returned (Inr fakePath), store_set fakePath file_text s2)))"
| "task_step n pf this url asUrl (Returned r) s = None"

text \<open>
  The pieces of one call run without anything in between; this is \<open>loadFile\<close>
  (lemma \<open>run_task_loadFile\<close> below).
\<close>

definition run_task ::
  "nat \<Rightarrow> platform \<Rightarrow> VfsHost \<Rightarrow> url \<Rightarrow> url option \<Rightarrow> vfs \<Rightarrow> (task \<times> vfs) option" where
  "run_task n pf this url asUrl s =
     (case task_step n pf this url asUrl Called s of
        None \<Rightarrow> None
      | Some (t1, s1) \<Rightarrow>
          (case task_step n pf this url asUrl t1 s1 of
             None \<Rightarrow> None
           | Some (Returned r, s2) \<Rightarrow> Some (Returned r, s2)
           | Some (t2, s2) \<Rightarrow> task_step n pf this url asUrl t2 s2))"

text \<open>
  Two calls for one URL on one store: at each moment one of the two runs its next piece.
  One call after the other is the schedule that runs all pieces of the first call first.
\<close>

inductive interleaved ::
  "nat \<Rightarrow> platform \<Rightarrow> VfsHost \<Rightarrow> url \<Rightarrow> task \<times> task \<times> vfs \<Rightarrow> task \<times> task \<times> vfs \<Rightarrow> bool"
  for n pf this url where
  stop: "interleaved n pf this url c c"
| step_first: "task_step n pf this url None t1 s = Some (t1', s1) \<Longrightarrow>
          interleaved n pf this url (t1', t2, s1) c \<Longrightarrow> interleaved n pf this url (t1, t2, s) c"
| step_second: "task_step n pf this url None t2 s = Some (t2', s1) \<Longrightarrow>
           interleaved n pf this url (t1, t2', s1) c \<Longrightarrow> interleaved n pf this url (t1, t2, s) c"

section \<open>The compiler host methods \<open>readFile\<close> and \<open>fileExists\<close>\<close>

text \<open>\<open>readFile\<close>, lines 403 to 442; \<open>Inr None\<close> is the result \<open>undefined\<close>.\<close>

definition readFile :: "platform \<Rightarrow> VfsHost \<Rightarrow> vfs \<Rightarrow> string \<Rightarrow> error + string option" where
  \<open>readFile pf this s fileName =
     (let foundName =
            (if endsWith fileName ''/jsx-runtime'' then slice_to_minus fileName 11 else fileName)
      in case getDefaultLibLocation this of
           Inl e \<Rightarrow> Inl e
         | Inr lib \<Rightarrow>
             (let foundName =
                    (if startsWith foundName lib then
                       (case path_parse pf foundName of
                          (dir, name, ext) \<Rightarrow>
                            (let name = toLowerCase pf name;
                                 ext = toLowerCase pf ext;
                                 name = (if \<not> startsWith name ''lib.'' then ''lib.'' @ name else name);
                                 name = (if \<not> endsWith name ''.d'' then name @ ''.d'' else name);
                                 ext = (if ext \<noteq> ''.ts'' then ''.ts'' else ext)
                             in dir @ ''/'' @ name @ ext))
                     else foundName)
              in case store s foundName of
                   None \<Rightarrow> Inr None
                 | Some sourceText \<Rightarrow>
                     if foundName = fileName then Inr (Some sourceText)
                     else Inr (Some (''/// <reference no-default-lib="true" />'' @ [CHR 0x0A] @
                                     ''/// <reference path="'' @ foundName @ ''" />'' @ [CHR 0x0A]))))\<close>

text \<open>\<open>fileExists\<close>, lines 395 to 401.\<close>

definition fileExists :: "platform \<Rightarrow> VfsHost \<Rightarrow> vfs \<Rightarrow> string \<Rightarrow> error + bool" where
  "fileExists pf this s fileName =
     (case readFile pf this s fileName of Inl e \<Rightarrow> Inl e | Inr r \<Rightarrow> Inr (r \<noteq> None))"

section \<open>Program construction (\<open>createDenoProgram\<close>)\<close>

text \<open>
  The host that \<open>createDenoProgram\<close> constructs: \<open>defaultLibDir\<close> is the URL object of the
  constant \<open>"https://raw.githubusercontent.com/denoland/deno/main/cli/tsc/dts"\<close>.
\<close>

definition deno_defaultLibDir :: url where
  "deno_defaultLibDir =
     \<lparr>href = ''https://raw.githubusercontent.com/denoland/deno/main/cli/tsc/dts'',
      protocol = ''https:'',
      host = ''raw.githubusercontent.com'',
      pathname = ''/denoland/deno/main/cli/tsc/dts''\<rparr>"

definition createDenoProgram_host :: "url \<Rightarrow> ImportMap \<Rightarrow> VfsHost" where
  "createDenoProgram_host root im =
     \<lparr>rootDir = root, defaultLibDir = deno_defaultLibDir, importMap = Some im\<rparr>"

text \<open>The empty map of \<open>new VfsHost\<close>, and the store after \<open>host.set("/package.json", ...)\<close>.\<close>

definition new_VfsHost_vfs :: vfs where
  "new_VfsHost_vfs = \<lparr>store = Map.empty, trace = []\<rparr>"

definition createDenoProgram_init :: vfs where
  \<open>createDenoProgram_init = store_set ''/package.json'' ''{ "type": "module" }'' new_VfsHost_vfs\<close>

text \<open>
  The states of the store that \<open>createDenoProgram\<close> goes through: after the
  initialisation it calls \<open>host.loadLibFile\<close> for the libraries of the compiler options
  and \<open>host.loadFile\<close> for the JSX import source and the entry files, and nothing else
  changes the store.
\<close>

inductive built :: "platform \<Rightarrow> VfsHost \<Rightarrow> vfs \<Rightarrow> bool" for pf this where
  init: "built pf this createDenoProgram_init"
| lib: "built pf this s \<Longrightarrow> loadLibFile (loadFile n pf this) pf this libName s = Some (r, s') \<Longrightarrow>
        built pf this s'"
| entry: "built pf this s \<Longrightarrow> loadFile n pf this url asUrl s = Some (r', s') \<Longrightarrow> built pf this s'"

section \<open>Notions used to state the properties\<close>

text \<open>
  An import map entry matches a specifier exactly or, when its prefix ends with the
  separator, as a prefix of the specifier.
\<close>

definition prefix_matches :: "string \<Rightarrow> string \<Rightarrow> bool" where
  "prefix_matches specifier prefix \<longleftrightarrow>
     specifier = prefix \<or> (endsWith prefix ''/'' \<and> startsWith specifier prefix)"

text \<open>
  The calls of \<open>loadFile\<close> that the host makes itself have one argument, or come from
  \<open>loadLibFile\<close> with the local copy of a library file and the URL of that file.
\<close>

definition host_call :: "platform \<Rightarrow> VfsHost \<Rightarrow> url \<Rightarrow> url option \<Rightarrow> bool" where
  "host_call pf this u a \<longleftrightarrow>
     (case a of
        None \<Rightarrow> True
      | Some fileUrl \<Rightarrow>
          (\<exists>libName. joinUrl pf (defaultLibDir this) [lib_fileName pf libName] = Inr fileUrl \<and>
             new_URL_base pf (''dts/'' @ lib_fileName pf libName @ ''.txt'') (import_meta_url pf)
               = Some u))"

text \<open>
  A loader relates the state before a call that the host makes to the state after it
  by \<open>Q\<close>.
\<close>

definition loader_rel :: "platform \<Rightarrow> VfsHost \<Rightarrow> (vfs \<Rightarrow> vfs \<Rightarrow> bool) \<Rightarrow> loader \<Rightarrow> bool" where
  "loader_rel pf this Q load \<longleftrightarrow>
     (\<forall>u a s r s'. host_call pf this u a \<longrightarrow> load u a s = Some (r, s') \<longrightarrow> Q s s')"

text \<open>Entries of the store are kept and the trace is extended.\<close>

definition grows :: "vfs \<Rightarrow> vfs \<Rightarrow> bool" where
  "grows s s' \<longleftrightarrow> store s \<subseteq>\<^sub>m store s' \<and> (\<exists>evs. trace s' = trace s @ evs)"

definition is_fetch_event :: "event \<Rightarrow> bool" where
  "is_fetch_event e =
     (case e of Await_fetchFile h \<Rightarrow> True | Await_readTextFile h \<Rightarrow> True
      | Await_memoizedFetch h \<Rightarrow> True | _ \<Rightarrow> False)"

text \<open>The fake paths whose files were handed to \<open>#transformSourceFile\<close>, in order.\<close>

definition transformed :: "event list \<Rightarrow> string list" where
  "transformed evs =
     concat (map (\<lambda>e. case e of Await_transformSourceFile u p \<Rightarrow> [p] | _ \<Rightarrow> []) evs)"

text \<open>
  Single writer per key: no fake path was transformed twice, and every transformed path
  is a key of the store.
\<close>

definition single_writer :: "vfs \<Rightarrow> bool" where
  "single_writer s \<longleftrightarrow>
     distinct (transformed (trace s)) \<and> set (transformed (trace s)) \<subseteq> dom (store s)"

text \<open>The awaits in a trace before the reservation of the path \<open>p\<close>.\<close>

definition awaits_before_reservation :: "string \<Rightarrow> event list \<Rightarrow> event list" where
  "awaits_before_reservation p evs = filter is_await (takeWhile (\<lambda>e. e \<noteq> Store_set p []) evs)"

text \<open>How often the text behind a URL was asked for, from the disk or from \<open>memoizedFetch\<close>.\<close>

definition count_fetches :: "string \<Rightarrow> event list \<Rightarrow> nat" where
  "count_fetches h evs =
     count_list evs (Await_readTextFile h) + count_list evs (Await_memoizedFetch h)"

text \<open>Two calls of \<open>loadFile\<close> for one URL, the second after the first has returned.\<close>

definition loadFile_twice ::
  "nat \<Rightarrow> platform \<Rightarrow> VfsHost \<Rightarrow> url \<Rightarrow> vfs \<Rightarrow>
   ((error + string) \<times> (error + string) \<times> vfs) option" where
  "loadFile_twice n pf this url s =
     (case loadFile n pf this url None s of
        None \<Rightarrow> None
      | Some (r1, s1) \<Rightarrow>
          (case loadFile n pf this url None s1 of
             None \<Rightarrow> None
           | Some (r2, s2) \<Rightarrow> Some (r1, r2, s2)))"

definition store_after :: "string \<Rightarrow> ('a \<times> vfs) option \<Rightarrow> string option" where
  "store_after p res = (case res of None \<Rightarrow> None | Some (r, s) \<Rightarrow> store s p)"

definition trace_after :: "('a \<times> vfs) option \<Rightarrow> event list option" where
  "trace_after res = map_option (trace \<circ> snd) res"

text \<open>All rewrites of a file in the order of \<open>#transformSourceFile\<close>.\<close>

definition rewrites_of :: "platform \<Rightarrow> string \<Rightarrow> string \<Rightarrow> rewrite list" where
  "rewrites_of pf fileName fullText =
     jsx_rewrites pf fullText @ path_rewrites pf fullText @ node_rewrites pf fileName fullText"

text \<open>The keys that were added to the store since \<open>s0\<close> are paths that were transformed.\<close>

definition new_keys_transformed :: "vfs \<Rightarrow> vfs \<Rightarrow> bool" where
  "new_keys_transformed s0 s \<longleftrightarrow> dom (store s) \<subseteq> dom (store s0) \<union> set (transformed (trace s))"

text \<open>\<open>p\<close> is the fake path of what \<open>#fetchFile\<close> returns for the URL.\<close>

definition fetched_path :: "nat \<Rightarrow> platform \<Rightarrow> url \<Rightarrow> string \<Rightarrow> bool" where
  "fetched_path n pf url p \<longleftrightarrow>
     (\<exists>f evs. fetchFile n pf url = Some (Inr f, evs) \<and> urlToFakePath (fetch_url f) = Inr p)"

text \<open>
  What holds of a task while another task runs: the path it has reserved was transformed,
  the path it has returned is in the store.
\<close>

definition task_ok :: "nat \<Rightarrow> platform \<Rightarrow> url \<Rightarrow> task \<Rightarrow> vfs \<Rightarrow> bool" where
  "task_ok n pf url t s =
     (case t of
        Transforming p f \<Rightarrow> p \<in> set (transformed (trace s)) \<and> fetched_path n pf url p
      | Returned (Inr p) \<Rightarrow> p \<in> dom (store s) \<and> fetched_path n pf url p
      | _ \<Rightarrow> True)"

definition started :: "task \<Rightarrow> nat" where
  "started t = (if t = Called then 0 else 1)"

definition pair_inv :: "nat \<Rightarrow> platform \<Rightarrow> url \<Rightarrow> vfs \<Rightarrow> task \<times> task \<times> vfs \<Rightarrow> bool" where
  "pair_inv n pf url s0 c =
     (case c of (t1, t2, s) \<Rightarrow>
        single_writer s \<and> new_keys_transformed s0 s \<and> dom (store s0) \<subseteq> dom (store s) \<and>
        task_ok n pf url t1 s \<and> task_ok n pf url t2 s \<and>
        count_list (trace s0) (Await_fetchFile (href url)) + started t1 + started t2
          \<le> count_list (trace s) (Await_fetchFile (href url)))"















section \<open>A small project, for the concrete instances\<close>

text \<open>The URL objects of \<open>file://\<close> and \<open>https://\<close> URLs with a plain path.\<close>

definition file_url :: "string \<Rightarrow> url" where
  "file_url path = \<lparr>href = ''file://'' @ path, protocol = ''file:'', host = [], pathname = path\<rparr>"

definition https_url :: "string \<Rightarrow> string \<Rightarrow> url" where
  "https_url h path =
     \<lparr>href = ''https://'' @ h @ path, protocol = ''https:'', host = h, pathname = path\<rparr>"

text \<open>
  The files \<open>/app/a.ts\<close> and \<open>/app/b.ts\<close> import each other, \<open>/app/c.ts\<close> and
  \<open>/app/e.ts\<close> import files that do not exist, \<open>/app/d.ts\<close> imports nothing, and
  \<open>/app/f.ts\<close> has an import with the empty specifier.
  \<open>https://esm.sh/react\<close> answers with the header \<open>x-typescript-types\<close>;
  \<open>https://example.com/mod\<close> answers without it.
\<close>

definition demo_files :: "(url \<times> string) list" where
  \<open>demo_files =
     [(file_url ''/app/a.ts'', ''import "./b.ts";''),
      (file_url ''/app/b.ts'', ''import "./a.ts";''),
      (file_url ''/app/c.ts'', ''import "./gone.d.ts";''),
      (file_url ''/app/d.ts'', ''export {};''),
      (file_url ''/app/e.ts'', ''import "./gone.ts";''),
      (file_url ''/app/f.ts'', ''import "";'')]\<close>

definition demo_responses :: "(url \<times> response) list" where
  "demo_responses =
     [(https_url ''esm.sh'' ''/react'',
       \<lparr>resp_text = ''export default {};'', resp_url = ''https://esm.sh/react'',
        resp_headers = [''x-typescript-types'' \<mapsto> ''https://esm.sh/v135/@types/react/index.d.ts'']\<rparr>),
      (https_url ''esm.sh'' ''/v135/@types/react/index.d.ts'',
       \<lparr>resp_text = ''export declare const version: string;'',
        resp_url = ''https://esm.sh/v135/@types/react/index.d.ts'',
        resp_headers = Map.empty\<rparr>),
      (https_url ''example.com'' ''/mod'',
       \<lparr>resp_text = ''export {};'', resp_url = ''https://example.com/mod'',
        resp_headers = Map.empty\<rparr>)]"



definition demo_absolute :: "url list" where
  "demo_absolute =
     [https_url ''esm.sh'' ''/v135/@types/react/index.d.ts'',
      https_url ''example.com'' ''/mod'',
      https_url ''x.example'' ''/b/c'',
      https_url ''x.example'' ''/c'',
      https_url ''y.example'' ''/b/c'',
      https_url ''y.example'' ''/c'']"

definition demo_relative :: "((string \<times> string) \<times> url) list" where
  "demo_relative =
     [((''./b.ts'', ''file:///app/a.ts''), file_url ''/app/b.ts''),
      ((''./a.ts'', ''file:///app/b.ts''), file_url ''/app/a.ts''),
      ((''./gone.d.ts'', ''file:///app/c.ts''), file_url ''/app/gone.d.ts''),
      ((''./gone.ts'', ''file:///app/e.ts''), file_url ''/app/gone.ts''),
      ((''https://esm.sh/v135/@types/react/index.d.ts'', ''https://esm.sh/react''),
       https_url ''esm.sh'' ''/v135/@types/react/index.d.ts'')]"

text \<open>
  What \<open>magic-string\<close> does in the project: \<open>overwrite\<close> returns for a range that is
  not empty, lies inside the text and does not meet the range of an earlier call, and
  throws for a range of length zero or one that ends behind the text; \<open>toString\<close> is the
  text with every range replaced by its content. Ranges that meet, that are reversed or
  that start before the text do not occur in the project.
\<close>

definition demo_overwrite :: "string \<Rightarrow> edit list \<Rightarrow> edit \<Rightarrow> bool" where
  "demo_overwrite original calls c =
     (case c of (a, b, content) \<Rightarrow>
        0 \<le> a \<and> a < b \<and> b \<le> int (length original) \<and>
        list_all (\<lambda>(a', b', content'). b \<le> a' \<or> b' \<le> a) calls)"

fun splice :: "string \<Rightarrow> int \<Rightarrow> edit list \<Rightarrow> string" where
  "splice original pos [] = drop (nat pos) original"
| "splice original pos ((a, b, content) # es) =
     take (nat (a - pos)) (drop (nat pos) original) @ content @ splice original b es"

definition demo_toString :: "string \<Rightarrow> edit list \<Rightarrow> string" where
  "demo_toString original calls = splice original 0 (sort_key fst calls)"

definition demo_toLowerCase :: "string \<Rightarrow> string" where
  "demo_toLowerCase s =
     map (\<lambda>c. case map_of (zip ''ABCDEFGHIJKLMNOPQRSTUVWXYZ'' ''abcdefghijklmnopqrstuvwxyz'') c of
                 None \<Rightarrow> c | Some d \<Rightarrow> d) s"

text \<open>
  The trees of the five importing files: the source file node with the import
  declaration and the end-of-file token; the declaration has its specifier, a string
  literal that starts (with its leading blank) at 6, as only child.
\<close>

definition demo_trees :: "(string \<times> node) list" where
  \<open>demo_trees =
     [(''import "./b.ts";'',
       OtherNode [ImportDeclaration (Some \<lparr>fullStart = 6, lit_end = 15, lit_text = ''./b.ts''\<rparr>)
                    [OtherNode []],
                  OtherNode []]),
      (''import "./a.ts";'',
       OtherNode [ImportDeclaration (Some \<lparr>fullStart = 6, lit_end = 15, lit_text = ''./a.ts''\<rparr>)
                    [OtherNode []],
                  OtherNode []]),
      (''import "./gone.d.ts";'',
       OtherNode [ImportDeclaration
                    (Some \<lparr>fullStart = 6, lit_end = 20, lit_text = ''./gone.d.ts''\<rparr>)
                    [OtherNode []],
                  OtherNode []]),
      (''import "./gone.ts";'',
       OtherNode [ImportDeclaration
                    (Some \<lparr>fullStart = 6, lit_end = 18, lit_text = ''./gone.ts''\<rparr>)
                    [OtherNode []],
                  OtherNode []]),
      (''import "";'',
       OtherNode [ImportDeclaration (Some \<lparr>fullStart = 6, lit_end = 9, lit_text = []\<rparr>)
                    [OtherNode []],
                  OtherNode []])]\<close>

definition demo_platform :: platform where
  "demo_platform =
     \<lparr>new_URL = map_of (map (\<lambda>u. (href u, u)) demo_absolute),
      new_URL_base = (\<lambda>s base. map_of demo_relative (s, base)),
      readTextFile = map_of demo_files,
      memoizedFetch = map_of demo_responses,
      match_jsxImportSource = (\<lambda>t. None),
      matchAll_reference_path = (\<lambda>t. []),
      matchAll_reference_lib = (\<lambda>t. []),
      createSourceFile =
        (\<lambda>fileName t. case map_of demo_trees t of None \<Rightarrow> OtherNode [] | Some nd \<Rightarrow> nd),
      path_parse = (\<lambda>p. ([], p, [])),
      import_meta_url = ''file:///deslint/VfsHost.ts'',
      toLowerCase = demo_toLowerCase,
      MagicString_overwrite = demo_overwrite,
      MagicString_toString = demo_toString\<rparr>"

definition demo_host :: VfsHost where
  "demo_host = \<lparr>rootDir = file_url ''/app'', defaultLibDir = deno_defaultLibDir, importMap = None\<rparr>"

text \<open>
  Import maps over the targets \<open>X = https://x.example/\<close> and \<open>Y = https://y.example/\<close>:
  the two prefixes \<open>a/\<close> and \<open>a/b/\<close> at the top level, and the longer prefix at the top
  level with the shorter one in a scope.
\<close>

definition host_with :: "ImportMap \<Rightarrow> VfsHost" where
  "host_with im = \<lparr>rootDir = file_url ''/app'', defaultLibDir = deno_defaultLibDir, importMap = Some im\<rparr>"

definition demo_imports :: "(string \<times> url) list" where
  "demo_imports = [(''a/'', https_url ''x.example'' ''/''), (''a/b/'', https_url ''y.example'' ''/'')]"

text \<open>
  The prefixes \<open>p/\<close> and \<open>p/[/\<close>; the first has the target \<open>a://h\<close>, a URL without a path.
\<close>

definition demo_ordered_imports :: "(string \<times> url) list" where
  "demo_ordered_imports =
     [(''p/'', \<lparr>href = ''a://h'', protocol = ''a:'', host = ''h'', pathname = []\<rparr>),
      (''p/[/'', https_url ''y.example'' ''/'')]"

definition demo_scoped_map :: ImportMap where
  "demo_scoped_map =
     \<lparr>im_imports = Some [(''a/b/'', https_url ''x.example'' ''/'')],
      im_scopes = Some [(''https://cdn.example/'', [(''a/'', https_url ''y.example'' ''/'')])]\<rparr>"

section \<open>Auxiliary facts\<close>

subsection \<open>The state and its trace\<close>

lemma store_log [simp]: "store (log evs s) = store s"
  by (simp add: log_def)

lemma trace_log [simp]: "trace (log evs s) = trace s @ evs"
  by (simp add: log_def)

lemma store_store_set [simp]: "store (store_set k v s) = (store s)(k \<mapsto> v)"
  by (simp add: store_set_def)

lemma trace_store_set [simp]: "trace (store_set k v s) = trace s @ [Store_set k v]"
  by (simp add: store_set_def)

lemma log_log: "log ys (log xs s) = log (xs @ ys) s"
  by (simp add: log_def)

lemma log_Nil: "log [] s = s"
  by (simp add: log_def)

lemma grows_refl: "reflp grows"
  by (simp add: reflp_def grows_def)

lemma grows_trans: "transp grows"
  by (auto simp: transp_def grows_def intro: map_le_trans)

lemma grows_log: "grows s (log evs s)"
  by (simp add: grows_def log_def)

lemma grows_lookup: "grows s s' \<Longrightarrow> store s k = Some v \<Longrightarrow> store s' k = Some v"
  by (auto simp: grows_def map_le_def dom_def)

lemma transformed_append: "transformed (xs @ ys) = transformed xs @ transformed ys"
  by (simp add: transformed_def)

lemma transformed_simps:
  "transformed [] = []"
  "transformed (Await_transformSourceFile u p # es) = p # transformed es"
  "transformed (Store_has p # es) = transformed es"
  "transformed (Store_set p t # es) = transformed es"
  "transformed (Await_fetchFile h # es) = transformed es"
  by (simp_all add: transformed_def)

lemma transformed_Cons_fetch:
  "transformed (Await_readTextFile h # es) = transformed es"
  "transformed (Await_memoizedFetch h # es) = transformed es"
  by (simp_all add: transformed_def)

lemma transformed_fetch_events:
  "\<forall>e \<in> set evs. is_fetch_event e \<Longrightarrow> transformed evs = []"
  by (induction evs) (auto simp: transformed_def is_fetch_event_def split: event.splits)

lemma is_fetch_event_await: "is_fetch_event e \<Longrightarrow> is_await e"
  by (cases e) (simp_all add: is_fetch_event_def is_await_def)

lemma count_list_distinct: "distinct xs \<Longrightarrow> x \<in> set xs \<Longrightarrow> count_list xs x = 1"
  by (induction xs) (auto simp: count_list_0_iff)

subsection \<open>The search of the import map\<close>

lemma entry_matches_prefix: "entry_matches sp q rp \<Longrightarrow> prefix_matches sp q"
  by (auto simp: entry_matches_def prefix_matches_def)

lemma prefix_matches_take: "prefix_matches sp q \<Longrightarrow> take (length q) sp = q"
  by (auto simp: prefix_matches_def startsWith_def)

lemma prefix_matches_length: "prefix_matches sp q \<Longrightarrow> length q \<le> length sp"
  by (metis prefix_matches_take length_take min.cobounded2 min.commute)

lemma prefix_matches_same_length:
  "prefix_matches sp q \<Longrightarrow> prefix_matches sp p \<Longrightarrow> length q = length p \<Longrightarrow> q = p"
  by (metis prefix_matches_take)

lemma imports_loop_no_match:
  "\<forall>(q, t) \<in> set es. \<not> entry_matches sp q (resolvedPrefix r) \<Longrightarrow> imports_loop pf sp es r = Inr r"
  by (induction es arbitrary: r) auto

lemma imports_loop_longest:
  assumes "distinct (map fst es)" "(p, t) \<in> set es" "prefix_matches sp p"
    and "\<forall>(q, t') \<in> set es. prefix_matches sp q \<longrightarrow> length q \<le> length p"
    and "\<forall>(q, t') \<in> set es. prefix_matches sp q \<longrightarrow> q \<noteq> p \<longrightarrow> new_URL pf (href t' @ drop (length q) sp) \<noteq> None"
    and "new_URL pf (href t @ drop (length p) sp) = Some u"
    and "length (resolvedPrefix r) < length p \<or> sp = p"
  shows "imports_loop pf sp es r = Inr (r\<lparr>resolvedPrefix := p, resolvedUrl := Some u\<rparr>)"
  using assms
proof (induction es arbitrary: r)
  case Nil
  then show ?case by simp
next
  case (Cons e es)
  obtain q t' where e: "e = (q, t')" by (cases e)
  show ?case
  proof (cases "q = p")
    case True
    with Cons.prems e have tt: "t' = t"
      by (auto simp: image_iff)
    from Cons.prems(3,7) have m: "entry_matches sp p (resolvedPrefix r)"
      by (auto simp: entry_matches_def prefix_matches_def)
    have rest: "\<forall>(q', t'') \<in> set es. \<not> entry_matches sp q' p"
    proof (clarify)
      fix q' t'' assume in_es: "(q', t'') \<in> set es" and em: "entry_matches sp q' p"
      from in_es Cons.prems(1) e True have ne: "q' \<noteq> p" by (auto simp: image_iff)
      from em have pm: "prefix_matches sp q'" by (rule entry_matches_prefix)
      with Cons.prems(4) in_es have le: "length q' \<le> length p" by auto
      from em le have "sp = q'" by (auto simp: entry_matches_def)
      with Cons.prems(3) le have "length p = length q'"
        using prefix_matches_length by fastforce
      with pm Cons.prems(3) ne show False using prefix_matches_same_length by metis
    qed
    have "imports_loop pf sp es (r\<lparr>resolvedPrefix := p, resolvedUrl := Some u\<rparr>)
          = Inr (r\<lparr>resolvedPrefix := p, resolvedUrl := Some u\<rparr>)"
      by (rule imports_loop_no_match) (use rest in auto)
    with m True tt e Cons.prems(6) show ?thesis by simp
  next
    case False
    with Cons.prems e have in_es: "(p, t) \<in> set es" by auto
    have d: "distinct (map fst es)" using Cons.prems(1) by simp
    have h4: "\<forall>(q, t') \<in> set es. prefix_matches sp q \<longrightarrow> length q \<le> length p"
      using Cons.prems(4) by auto
    have h5: "\<forall>(q, t') \<in> set es. prefix_matches sp q \<longrightarrow> q \<noteq> p \<longrightarrow> new_URL pf (href t' @ drop (length q) sp) \<noteq> None"
      using Cons.prems(5) by auto
    show ?thesis
    proof (cases "entry_matches sp q (resolvedPrefix r)")
      case em: True
      then have pm: "prefix_matches sp q" by (rule entry_matches_prefix)
      with Cons.prems(5) e False obtain u' where u': "new_URL pf (href t' @ drop (length q) sp) = Some u'"
        by auto
      from pm Cons.prems(4) e have le: "length q \<le> length p" by auto
      have "length q \<noteq> length p" using pm Cons.prems(3) False prefix_matches_same_length by blast
      with le have lt: "length q < length p" by simp
      have "imports_loop pf sp es (r\<lparr>resolvedPrefix := q, resolvedUrl := Some u'\<rparr>)
            = Inr ((r\<lparr>resolvedPrefix := q, resolvedUrl := Some u'\<rparr>)\<lparr>resolvedPrefix := p, resolvedUrl := Some u\<rparr>)"
        by (rule Cons.IH[OF d in_es Cons.prems(3) h4 h5 Cons.prems(6)]) (use lt in simp)
      with em e u' show ?thesis by simp
    next
      case nm: False
      have "imports_loop pf sp es r = Inr (r\<lparr>resolvedPrefix := p, resolvedUrl := Some u\<rparr>)"
        by (rule Cons.IH[OF d in_es Cons.prems(3) h4 h5 Cons.prems(6) Cons.prems(7)])
      with nm e show ?thesis by simp
    qed
  qed
qed

lemma mappings_loop_no_match:
  "\<forall>(q, t) \<in> set es. \<not> entry_matches sp q (resolvedPrefix r) \<Longrightarrow>
   mappings_loop pf sp scope es r = Inr r"
  by (induction es arbitrary: r) auto

lemma scopes_loop_none_applies:
  "\<forall>(sc, ms) \<in> set ss. \<not> startsWith (href src) sc \<Longrightarrow> scopes_loop pf src sp ss r = Inr r"
  by (induction ss arbitrary: r) auto

lemma scopes_loop_no_match:
  "\<forall>(sc, ms) \<in> set ss. startsWith (href src) sc \<longrightarrow> (\<forall>(q, t) \<in> set ms. \<not> prefix_matches sp q)
   \<Longrightarrow> scopes_loop pf src sp ss r = Inr r"
proof (induction ss arbitrary: r)
  case Nil
  then show ?case by simp
next
  case (Cons x ss)
  obtain sc ms where x: "x = (sc, ms)" by (cases x)
  have rest: "scopes_loop pf src sp ss r = Inr r" using Cons by simp
  show ?case
  proof (cases "startsWith (href src) sc \<and> length sc > length (resolvedScope r)")
    case True
    with Cons.prems x have "\<forall>(q, t) \<in> set ms. \<not> entry_matches sp q (resolvedPrefix r)"
      by (auto dest: entry_matches_prefix)
    then have "mappings_loop pf sp sc ms r = Inr r" by (rule mappings_loop_no_match)
    with True x rest show ?thesis by simp
  next
    case False
    with x rest show ?thesis by auto
  qed
qed

text \<open>
  When the URL constructor accepts the candidate of every matching entry, the search gives
  the target of the longest matching prefix, in whatever order the entries are listed.
\<close>

lemma longest_prefix_of_accepted_candidates:
  assumes "distinct (map fst (imports_of (importMap this)))"
    and "(p, t) \<in> set (imports_of (importMap this))"
    and "prefix_matches specifier p"
    and "\<forall>(q, t') \<in> set (imports_of (importMap this)).
           prefix_matches specifier q \<longrightarrow> length q \<le> length p"
    and "\<forall>(q, t') \<in> set (imports_of (importMap this)).
           prefix_matches specifier q \<longrightarrow> q \<noteq> p \<longrightarrow>
           new_URL pf (href t' @ drop (length q) specifier) \<noteq> None"
    and "new_URL pf (href t @ drop (length p) specifier) = Some u"
    and "\<forall>(sc, ms) \<in> set (scopes_of (importMap this)).
           startsWith (href sourceUrl) sc \<longrightarrow> (\<forall>(q, t) \<in> set ms. \<not> prefix_matches specifier q)"
  shows "resolveSpecifier pf this sourceUrl specifier = Inr u"
proof -
  from assms(3) have "length (resolvedPrefix initial_resolution) < length p \<or> specifier = p"
    by (cases p) (auto simp: initial_resolution_def prefix_matches_def endsWith_def)
  with assms(1-6) have
    "imports_loop pf specifier (imports_of (importMap this)) initial_resolution
     = Inr (initial_resolution\<lparr>resolvedPrefix := p, resolvedUrl := Some u\<rparr>)"
    by (intro imports_loop_longest)
  moreover have "scopes_loop pf sourceUrl specifier (scopes_of (importMap this))
      (initial_resolution\<lparr>resolvedPrefix := p, resolvedUrl := Some u\<rparr>)
     = Inr (initial_resolution\<lparr>resolvedPrefix := p, resolvedUrl := Some u\<rparr>)"
    by (rule scopes_loop_no_match) (rule assms(7))
  ultimately show ?thesis by (simp add: resolveSpecifier_def)
qed

subsection \<open>Relations kept by the routines that call a loader\<close>

lemma loader_rel_None:
  assumes "loader_rel pf this Q load" and "load u None s = Some (r, s')"
  shows "Q s s'"
proof -
  have "host_call pf this u None" by (simp add: host_call_def)
  with assms show ?thesis unfolding loader_rel_def by blast
qed

lemma transformSpecifier_rel:
  assumes "loader_rel pf this Q load" and "reflp Q"
    and "transformSpecifier load pf this src sp s = Some (r, s')"
  shows "Q s s'"
proof (cases "resolveSpecifier pf this src sp")
  case (Inl e)
  with assms(2,3) show ?thesis by (simp add: transformSpecifier_def reflp_def)
next
  case (Inr u)
  with assms(3) obtain r1 where "load u None s = Some (r1, s')"
    by (auto simp: transformSpecifier_def split: option.splits sum.splits)
  with assms(1) show ?thesis by (rule loader_rel_None)
qed

lemma overwrite_all_rel:
  assumes "\<And>sp s r s'. tr sp s = Some (r, s') \<Longrightarrow> Q s s'" and "reflp Q" and "transp Q"
    and "overwrite_all tr pf original rs calls s = Some (res, s')"
  shows "Q s s'"
  using assms(4)
proof (induction rs arbitrary: calls s res s' rule: length_induct)
  case (1 rs)
  show ?case
  proof (cases rs)
    case Nil
    with "1.prems" assms(2) show ?thesis by (simp add: reflp_def)
  next
    case (Cons x rs')
    obtain a b sp fj below where x: "x = (a, b, sp, fj, below)" by (cases x)
    from "1.prems" Cons x obtain p s1 where t: "tr sp s = Some (p, s1)"
      by (auto split: option.splits)
    let ?c = "(a, b, if fj then toFakeJs p else p)"
    have "Q s1 s'"
    proof (cases "MagicString_overwrite pf original calls ?c")
      case True
      with "1.prems" Cons x t have "overwrite_all tr pf original rs' (calls @ [?c]) s1 = Some (res, s')"
        by simp
      moreover have "length rs' < length rs" using Cons by simp
      ultimately show ?thesis using "1.IH" by blast
    next
      case False
      with "1.prems" Cons x t obtain res' where
        "overwrite_all tr pf original (drop below rs') (calls @ [?c]) s1 = Some (res', s')"
        by (auto split: option.splits)
      moreover have "length (drop below rs') < length rs" using Cons by simp
      ultimately show ?thesis using "1.IH" by blast
    qed
    with assms(1)[OF t] assms(3) show ?thesis by (auto elim: transpE)
  qed
qed

lemma loadLibFile_rel:
  assumes "loader_rel pf this Q load" and "reflp Q" and "transp Q"
    and "loadLibFile load pf this libName s = Some (r, s')"
  shows "Q s s'"
proof (cases "joinUrl pf (defaultLibDir this) [lib_fileName pf libName]")
  case (Inl e)
  with assms(2,4) show ?thesis by (simp add: loadLibFile_def reflp_def)
next
  case (Inr u)
  have t: "\<And>x y z. Q x y \<Longrightarrow> Q y z \<Longrightarrow> Q x z" using assms(3) by (auto elim: transpE)
  from assms(4) Inr obtain r1 s1 where l1: "load u None s = Some (r1, s1)"
    by (auto simp: loadLibFile_def split: option.splits)
  from assms(1) l1 have q1: "Q s s1" by (rule loader_rel_None)
  show ?thesis
  proof (cases r1)
    case r: (Inr p)
    with assms(4) Inr l1 q1 show ?thesis by (simp add: loadLibFile_def)
  next
    case e: (Inl e)
    show ?thesis
    proof (cases "new_URL_base pf (''dts/'' @ lib_fileName pf libName @ ''.txt'') (import_meta_url pf)")
      case None
      with assms(4) Inr l1 e q1 show ?thesis by (simp add: loadLibFile_def)
    next
      case (Some l)
      with assms(4) Inr l1 e obtain r2 where l2: "load l (Some u) s1 = Some (r2, s')"
        by (auto simp: loadLibFile_def split: option.splits)
      from Inr Some have "host_call pf this l (Some u)" by (auto simp: host_call_def)
      with assms(1) l2 have "Q s1 s'" by (auto simp: loader_rel_def)
      with q1 show ?thesis by (rule t)
    qed
  qed
qed

lemma loadLibFiles_rel:
  assumes "\<And>n s r s'. ll n s = Some (r, s') \<Longrightarrow> Q s s'" and "reflp Q" and "transp Q"
    and "loadLibFiles ll ns s = Some (r, s')"
  shows "Q s s'"
  using assms(4)
proof (induction ns arbitrary: s r)
  case Nil
  with assms(2) show ?case by (simp add: reflp_def)
next
  case (Cons n ns)
  from Cons.prems obtain r1 s1 r2 where a: "ll n s = Some (r1, s1)"
    and b: "loadLibFiles ll ns s1 = Some (r2, s')"
    by (auto split: option.splits prod.splits)
  from assms(1)[OF a] Cons.IH[OF b] assms(3) show ?case by (auto elim: transpE)
qed

lemma transformSourceFile_rel:
  assumes "loader_rel pf this Q load" and "reflp Q" and "transp Q"
    and "transformSourceFile load pf this realUrl fileName fullText s = Some (r, s')"
  shows "Q s s'"
proof -
  let ?tr = "transformSpecifier load pf this realUrl"
  have t: "\<And>x y z. Q x y \<Longrightarrow> Q y z \<Longrightarrow> Q x z" using assms(3) by (auto elim: transpE)
  have tr: "\<And>sp s r s'. ?tr sp s = Some (r, s') \<Longrightarrow> Q s s'"
    using transformSpecifier_rel[OF assms(1,2)] .
  have ow: "\<And>rs ed s res s'. overwrite_all ?tr pf fullText rs ed s = Some (res, s') \<Longrightarrow> Q s s'"
    by (rule overwrite_all_rel[where tr = ?tr and Q = Q]) (use tr assms(2,3) in auto)
  have ll: "\<And>n s r s'. loadLibFile load pf this n s = Some (r, s') \<Longrightarrow> Q s s'"
    using loadLibFile_rel[OF assms(1,2,3)] .
  have lls: "\<And>ns s r s'. loadLibFiles (loadLibFile load pf this) ns s = Some (r, s') \<Longrightarrow> Q s s'"
    by (rule loadLibFiles_rel[where ll = "loadLibFile load pf this" and Q = Q])
      (use ll assms(2,3) in auto)
  from assms(4) obtain res1 s1 where
    a: "overwrite_all ?tr pf fullText (jsx_rewrites pf fullText) [] s = Some (res1, s1)"
    by (auto simp: transformSourceFile_def Let_def split: option.splits)
  note q1 = ow[OF a]
  show ?thesis
  proof (cases "fst res1")
    case (Some e)
    with assms(4) a have "s' = s1"
      by (cases res1) (auto simp: transformSourceFile_def Let_def)
    with q1 show ?thesis by simp
  next
    case None
    then obtain c1 where r1: "res1 = (None, c1)" by (cases res1) auto
    from assms(4) a r1 obtain res2 s2 where
      b: "overwrite_all ?tr pf fullText (path_rewrites pf fullText) c1 s1 = Some (res2, s2)"
      by (auto simp: transformSourceFile_def Let_def split: option.splits)
    note q2 = t[OF q1 ow[OF b]]
    show ?thesis
    proof (cases "fst res2")
      case (Some e)
      with assms(4) a r1 b have "s' = s2"
        by (cases res2) (auto simp: transformSourceFile_def Let_def)
      with q2 show ?thesis by simp
    next
      case None
      then obtain c2 where r2: "res2 = (None, c2)" by (cases res2) auto
      from assms(4) a r1 b r2 obtain r3 s3 where
        c: "loadLibFiles (loadLibFile load pf this) (lib_names pf fullText) s2 = Some (r3, s3)"
        by (auto simp: transformSourceFile_def Let_def split: option.splits)
      note q3 = t[OF q2 lls[OF c]]
      show ?thesis
      proof (cases r3)
        case (Inl e)
        with assms(4) a r1 b r2 c have "s' = s3"
          by (auto simp: transformSourceFile_def Let_def)
        with q3 show ?thesis by simp
      next
        case (Inr u)
        with assms(4) a r1 b r2 c obtain res4 where
          "overwrite_all ?tr pf fullText (node_rewrites pf fileName fullText) c2 s3 = Some (res4, s')"
          by (auto simp: transformSourceFile_def Let_def split: option.splits)
        from t[OF q3 ow[OF this]] show ?thesis .
      qed
    qed
  qed
qed

subsection \<open>Fetching\<close>

lemma fetchFile_https_events:
  "fetchFile_https pf url = (r, evs) \<Longrightarrow> e \<in> set evs \<Longrightarrow> is_fetch_event e"
  by (auto simp: fetchFile_https_def Let_def is_fetch_event_def
      split: option.splits)

lemma fetchFile_events:
  "fetchFile n pf url = Some (r, evs) \<Longrightarrow> e \<in> set evs \<Longrightarrow> is_fetch_event e"
proof (induction n arbitrary: url r evs)
  case 0
  then show ?case by simp
next
  case (Suc n)
  consider (c_file) "protocol url = ''file:''"
    | (https) "protocol url \<noteq> ''file:''" "protocol url = ''https:''"
    | (npm) "protocol url \<noteq> ''file:''" "protocol url \<noteq> ''https:''" "protocol url = ''npm:''"
    | (jsr) "protocol url \<noteq> ''file:''" "protocol url \<noteq> ''https:''" "protocol url \<noteq> ''npm:''"
        "protocol url = ''jsr:''"
    | (other) "protocol url \<noteq> ''file:''" "protocol url \<noteq> ''https:''" "protocol url \<noteq> ''npm:''"
        "protocol url \<noteq> ''jsr:''"
    by blast
  then show ?case
  proof cases
    case c_file
    with Suc.prems show ?thesis
      by (auto simp: is_fetch_event_def split: option.splits)
  next
    case https
    with Suc.prems show ?thesis
      by (auto dest: fetchFile_https_events)
  next
    case npm
    with Suc.prems obtain u r' evs' where "fetchFile n pf u = Some (r', evs')"
      "evs = Await_fetchFile (href u) # evs' \<or> evs = []"
      by (auto split: option.splits prod.splits)
    with Suc.IH[of u r' evs'] Suc.prems(2) show ?thesis
      by (auto simp: is_fetch_event_def)
  next
    case jsr
    with Suc.prems obtain u r' evs' where "fetchFile n pf u = Some (r', evs')"
      "evs = Await_fetchFile (href u) # evs' \<or> evs = []"
      by (auto split: option.splits prod.splits)
    with Suc.IH[of u r' evs'] Suc.prems(2) show ?thesis
      by (auto simp: is_fetch_event_def)
  next
    case other
    with Suc.prems show ?thesis by simp
  qed
qed

lemma fetchFile_https_without_types:
  assumes "memoizedFetch pf url = Some resp"
    and "resp_headers resp ''x-typescript-types'' = None"
  shows "fetchFile_https pf url =
    ((case new_URL pf (resp_url resp) of
        None \<Rightarrow> Inl (Invalid_URL (resp_url resp))
      | Some u \<Rightarrow> Inr \<lparr>fetch_text = resp_text resp, fetch_url = u\<rparr>),
     [Await_memoizedFetch (href url)])"
  using assms by (simp add: fetchFile_https_def Let_def)

subsection \<open>Invariants of \<open>loadFile\<close>\<close>

lemma loadFile_Suc_cases:
  assumes "loadFile (Suc n) pf this url asUrl s = Some (r, s')"
  obtains
    (fetch_err) e evs where "fetchFile n pf url = Some (Inl e, evs)"
      "r = Inl (Loading_failed (href url) e)" "s' = log (Await_fetchFile (href url) # evs) s"
  | (path_err) f evs e where "fetchFile n pf url = Some (Inr f, evs)"
      "urlToFakePath (case asUrl of None \<Rightarrow> fetch_url f | Some a \<Rightarrow> a) = Inl e"
      "r = Inl (Loading_failed (href url) e)" "s' = log (Await_fetchFile (href url) # evs) s"
  | (seen) f evs p where "fetchFile n pf url = Some (Inr f, evs)"
      "urlToFakePath (case asUrl of None \<Rightarrow> fetch_url f | Some a \<Rightarrow> a) = Inr p"
      "store s p \<noteq> None" "r = Inr p"
      "s' = log [Store_has p] (log (Await_fetchFile (href url) # evs) s)"
  | (transform_err) f evs p e where "fetchFile n pf url = Some (Inr f, evs)"
      "urlToFakePath (case asUrl of None \<Rightarrow> fetch_url f | Some a \<Rightarrow> a) = Inr p"
      "store s p = None"
      "transformSourceFile (loadFile n pf this) pf this (fetch_url f) p (fetch_text f)
         (log [Await_transformSourceFile (href (fetch_url f)) p]
            (store_set p [] (log [Store_has p] (log (Await_fetchFile (href url) # evs) s))))
       = Some (Inl e, s')"
      "r = Inl (Loading_failed (href url) e)"
  | (loaded) f evs p t s2 where "fetchFile n pf url = Some (Inr f, evs)"
      "urlToFakePath (case asUrl of None \<Rightarrow> fetch_url f | Some a \<Rightarrow> a) = Inr p"
      "store s p = None"
      "transformSourceFile (loadFile n pf this) pf this (fetch_url f) p (fetch_text f)
         (log [Await_transformSourceFile (href (fetch_url f)) p]
            (store_set p [] (log [Store_has p] (log (Await_fetchFile (href url) # evs) s))))
       = Some (Inr t, s2)"
      "r = Inr p" "s' = store_set p t s2" "\<exists>lib. getDefaultLibLocation this = Inr lib"
  | (lib_err) f evs p t s2 e where "fetchFile n pf url = Some (Inr f, evs)"
      "urlToFakePath (case asUrl of None \<Rightarrow> fetch_url f | Some a \<Rightarrow> a) = Inr p"
      "store s p = None"
      "transformSourceFile (loadFile n pf this) pf this (fetch_url f) p (fetch_text f)
         (log [Await_transformSourceFile (href (fetch_url f)) p]
            (store_set p [] (log [Store_has p] (log (Await_fetchFile (href url) # evs) s))))
       = Some (Inr t, s2)"
      "getDefaultLibLocation this = Inl e"
      "r = Inl (Loading_failed (href url) e)" "s' = store_set p t s2"
proof -
  from assms obtain x evs where fe: "fetchFile n pf url = Some (x, evs)"
    by (auto split: option.splits)
  show thesis
  proof (cases x)
    case (Inl e)
    with assms fe show thesis by (intro fetch_err[of e evs]) auto
  next
    case f: (Inr f)
    show thesis
    proof (cases "urlToFakePath (case asUrl of None \<Rightarrow> fetch_url f | Some a \<Rightarrow> a)")
      case (Inl e)
      with assms fe f show thesis by (intro path_err[of f evs e]) (auto simp: Let_def)
    next
      case p: (Inr p)
      show thesis
      proof (cases "store s p = None")
        case False
        with assms fe f p show thesis by (intro seen[of f evs p]) (auto simp: Let_def)
      next
        case True
        let ?t = "transformSourceFile (loadFile n pf this) pf this (fetch_url f) p (fetch_text f)
         (log [Await_transformSourceFile (href (fetch_url f)) p]
            (store_set p [] (log [Store_has p] (log (Await_fetchFile (href url) # evs) s))))"
        from assms fe f p True obtain y s2 where t: "?t = Some (y, s2)"
          by (auto simp: Let_def split: option.splits)
        show thesis
        proof (cases y)
          case (Inl e)
          with assms fe f p True t show thesis
            by (intro transform_err[of f evs p e]) (auto simp: Let_def)
        next
          case ft: (Inr ft)
          show thesis
          proof (cases "getDefaultLibLocation this")
            case (Inl e)
            with assms fe f p True t ft show thesis
              by (intro lib_err[of f evs p ft s2 e]) (auto simp: Let_def)
          next
            case (Inr lib)
            with assms fe f p True t ft show thesis
              by (intro loaded[of f evs p ft s2]) (auto simp: Let_def)
          qed
        qed
      qed
    qed
  qed
qed

lemma loadFile_grows: "loadFile n pf this url asUrl s = Some (r, s') \<Longrightarrow> grows s s'"
proof (induction n arbitrary: url asUrl s r s')
  case 0
  then show ?case by simp
next
  case (Suc n)
  have lr: "loader_rel pf this grows (loadFile n pf this)"
    unfolding loader_rel_def using Suc.IH by blast
  note tsf = transformSourceFile_rel[OF lr grows_refl grows_trans]
  have res: "store s p = None \<Longrightarrow>
      grows s (log [Await_transformSourceFile h p] (store_set p [] (log [Store_has p] (log evs s))))"
    for p h evs
    by (auto simp: grows_def map_le_def dom_def)
  have tr: "grows x y \<Longrightarrow> grows y z \<Longrightarrow> grows x z" for x y z
    using grows_trans by (auto elim: transpE)
  from Suc.prems show ?case
  proof (cases rule: loadFile_Suc_cases)
    case (fetch_err e evs)
    then show ?thesis by (simp add: grows_log)
  next
    case (path_err f evs e)
    then show ?thesis by (simp add: grows_log)
  next
    case (seen f evs p)
    then show ?thesis by (simp add: grows_def)
  next
    case (transform_err f evs p e)
    from tr[OF res[OF transform_err(3)] tsf[OF transform_err(4)]] show ?thesis .
  next
    case (loaded f evs p t s2)
    from tr[OF res[OF loaded(3)] tsf[OF loaded(4)]] have "grows s s2" .
    with loaded(3) show ?thesis unfolding loaded(6)
      by (auto simp: grows_def map_le_def dom_def)
  next
    case (lib_err f evs p t s2 e)
    from tr[OF res[OF lib_err(3)] tsf[OF lib_err(4)]] have "grows s s2" .
    with lib_err(3) show ?thesis unfolding lib_err(7)
      by (auto simp: grows_def map_le_def dom_def)
  qed
qed

lemma transformSourceFile_grows:
  "transformSourceFile (loadFile n pf this) pf this realUrl fileName fullText s = Some (r, s')
   \<Longrightarrow> grows s s'"
  by (rule transformSourceFile_rel[where Q = grows and load = "loadFile n pf this"])
     (auto simp: loader_rel_def grows_refl grows_trans dest: loadFile_grows)

lemma loadLibFile_grows:
  "loadLibFile (loadFile n pf this) pf this libName s = Some (r, s') \<Longrightarrow> grows s s'"
  by (rule loadLibFile_rel[where Q = grows and load = "loadFile n pf this"])
     (auto simp: loader_rel_def grows_refl grows_trans dest: loadFile_grows)

lemma single_writer_rel_refl: "reflp (\<lambda>s s'. single_writer s \<longrightarrow> single_writer s')"
  by (simp add: reflp_def)

lemma single_writer_rel_trans: "transp (\<lambda>s s'. single_writer s \<longrightarrow> single_writer s')"
  by (simp add: transp_def)

lemma loadFile_single_writer:
  "loadFile n pf this url asUrl s = Some (r, s') \<Longrightarrow> single_writer s \<Longrightarrow> single_writer s'"
proof (induction n arbitrary: url asUrl s r s')
  case 0
  then show ?case by simp
next
  case (Suc n)
  let ?Q = "\<lambda>s s'. single_writer s \<longrightarrow> single_writer s'"
  have lr: "loader_rel pf this ?Q (loadFile n pf this)"
    unfolding loader_rel_def using Suc.IH by blast
  note tsf = transformSourceFile_rel[OF lr single_writer_rel_refl single_writer_rel_trans]
  have fe: "fetchFile n pf url = Some (x, evs) \<Longrightarrow> transformed (Await_fetchFile h # evs) = []" for x evs h
    using transformed_fetch_events[of evs] fetchFile_events[of n pf url x evs]
    by (simp add: transformed_simps)
  have lg: "fetchFile n pf url = Some (x, evs) \<Longrightarrow> single_writer (log (Await_fetchFile h # evs) s)" for x evs h
    using Suc.prems(2) fe[of x evs h] by (simp add: single_writer_def transformed_append)
  have res: "fetchFile n pf url = Some (x, evs) \<Longrightarrow> store s p = None \<Longrightarrow>
      single_writer (log [Await_transformSourceFile h' p] (store_set p [] (log [Store_has p] (log (Await_fetchFile h # evs) s))))"
    for p h h' evs x
    using Suc.prems(2) fe[of x evs h]
    by (auto simp: single_writer_def transformed_append transformed_simps)
  from Suc.prems(1) show ?case
  proof (cases rule: loadFile_Suc_cases)
    case (fetch_err e evs)
    then show ?thesis using lg by simp
  next
    case (path_err f evs e)
    then show ?thesis using lg by simp
  next
    case (seen f evs p)
    then show ?thesis using lg[OF seen(1)]
      by (simp add: single_writer_def transformed_append transformed_simps)
  next
    case (transform_err f evs p e)
    from tsf[OF transform_err(4)] res[OF transform_err(1,3)] show ?thesis by simp
  next
    case (loaded f evs p t s2)
    from tsf[OF loaded(4)] res[OF loaded(1,3)] have "single_writer s2" by simp
    then show ?thesis unfolding loaded(6)
      by (auto simp: single_writer_def transformed_append transformed_simps)
  next
    case (lib_err f evs p t s2 e)
    from tsf[OF lib_err(4)] res[OF lib_err(1,3)] have "single_writer s2" by simp
    then show ?thesis unfolding lib_err(7)
      by (auto simp: single_writer_def transformed_append transformed_simps)
  qed
qed

subsection \<open>Transforms that return\<close>







lemma transformSourceFile_no_rewrites:
  assumes "rewrites_of pf fileName fullText = []" and "lib_names pf fullText = []"
  shows "transformSourceFile load pf this realUrl fileName fullText s
         = Some (Inr (MagicString_toString pf fullText []), s)"
  using assms by (simp add: transformSourceFile_def rewrites_of_def)

subsection \<open>The compiler host\<close>

lemma fileExists_package_json:
  "store s ''/package.json'' \<noteq> None \<Longrightarrow>
   fileExists pf (createDenoProgram_host root im) s ''/package.json'' = Inr True"
  by (auto simp: fileExists_def readFile_def getDefaultLibLocation_def urlToFakePath_def
      createDenoProgram_host_def deno_defaultLibDir_def endsWith_def startsWith_def Let_def)

subsection \<open>Calls that overlap\<close>

lemma run_task_loadFile:
  "run_task n pf this url asUrl s =
     map_option (\<lambda>(r, s'). (Returned r, s')) (loadFile (Suc n) pf this url asUrl s)"
proof (cases "fetchFile n pf url")
  case None
  then show ?thesis by (simp add: run_task_def)
next
  case (Some x)
  obtain r evs where x: "x = (r, evs)" by (cases x)
  show ?thesis
  proof (cases r)
    case (Inl e)
    with Some x show ?thesis by (simp add: run_task_def)
  next
    case (Inr f)
    show ?thesis
    proof (cases "urlToFakePath (case asUrl of None \<Rightarrow> fetch_url f | Some a \<Rightarrow> a)")
      case (Inl e)
      with Some x Inr show ?thesis by (simp add: run_task_def Let_def)
    next
      case p: (Inr p)
      show ?thesis
      proof (cases "store s p = None")
        case False
        with Some x Inr p show ?thesis by (auto simp: run_task_def Let_def)
      next
        case True
        with Some x Inr p show ?thesis
          by (auto simp: run_task_def Let_def split: option.splits sum.splits)
      qed
    qed
  qed
qed

lemma new_keys_rel_refl: "reflp (\<lambda>s s'. new_keys_transformed s0 s \<longrightarrow> new_keys_transformed s0 s')"
  by (simp add: reflp_def)

lemma new_keys_rel_trans: "transp (\<lambda>s s'. new_keys_transformed s0 s \<longrightarrow> new_keys_transformed s0 s')"
  by (simp add: transp_def)

lemma loadFile_new_keys:
  "loadFile n pf this url asUrl s = Some (r, s') \<Longrightarrow> new_keys_transformed s0 s \<Longrightarrow>
   new_keys_transformed s0 s'"
proof (induction n arbitrary: url asUrl s r s')
  case 0
  then show ?case by simp
next
  case (Suc n)
  let ?Q = "\<lambda>s s'. new_keys_transformed s0 s \<longrightarrow> new_keys_transformed s0 s'"
  have lr: "loader_rel pf this ?Q (loadFile n pf this)"
    unfolding loader_rel_def using Suc.IH by blast
  note tsf = transformSourceFile_rel[OF lr new_keys_rel_refl new_keys_rel_trans]
  have lg: "new_keys_transformed s0 (log evs s)" for evs
    using Suc.prems(2) by (auto simp: new_keys_transformed_def transformed_append)
  have res: "new_keys_transformed s0
      (log [Await_transformSourceFile h' p] (store_set p [] (log [Store_has p] (log evs s))))"
    for p h' evs
    using Suc.prems(2)
    by (auto simp: new_keys_transformed_def transformed_append transformed_simps)
  from Suc.prems(1) show ?case
  proof (cases rule: loadFile_Suc_cases)
    case (fetch_err e evs)
    then show ?thesis using lg by simp
  next
    case (path_err f evs e)
    then show ?thesis using lg by simp
  next
    case (seen f evs p)
    then show ?thesis using lg[of "(Await_fetchFile (href url) # evs) @ [Store_has p]"]
      by (simp add: log_log)
  next
    case (transform_err f evs p e)
    from tsf[OF transform_err(4)] res show ?thesis by simp
  next
    case (loaded f evs p t s2)
    from tsf[OF loaded(4)] res have n2: "new_keys_transformed s0 s2" by simp
    from transformSourceFile_grows[OF loaded(4)] have "p \<in> set (transformed (trace s2))"
      by (auto simp: grows_def transformed_append transformed_simps)
    with n2 show ?thesis unfolding loaded(6)
      by (auto simp: new_keys_transformed_def transformed_append transformed_simps)
  next
    case (lib_err f evs p t s2 e)
    from tsf[OF lib_err(4)] res have n2: "new_keys_transformed s0 s2" by simp
    from transformSourceFile_grows[OF lib_err(4)] have "p \<in> set (transformed (trace s2))"
      by (auto simp: grows_def transformed_append transformed_simps)
    with n2 show ?thesis unfolding lib_err(7)
      by (auto simp: new_keys_transformed_def transformed_append transformed_simps)
  qed
qed

lemma transformSourceFile_single_writer:
  assumes "transformSourceFile (loadFile n pf this) pf this realUrl fileName fullText s = Some (r, s')"
    and "single_writer s"
  shows "single_writer s'"
proof -
  have lr: "loader_rel pf this (\<lambda>s s'. single_writer s \<longrightarrow> single_writer s') (loadFile n pf this)"
    unfolding loader_rel_def using loadFile_single_writer by blast
  from transformSourceFile_rel[OF lr single_writer_rel_refl single_writer_rel_trans assms(1)] assms(2)
  show ?thesis by simp
qed

lemma transformSourceFile_new_keys:
  assumes "transformSourceFile (loadFile n pf this) pf this realUrl fileName fullText s = Some (r, s')"
    and "new_keys_transformed s0 s"
  shows "new_keys_transformed s0 s'"
proof -
  have lr: "loader_rel pf this (\<lambda>s s'. new_keys_transformed s0 s \<longrightarrow> new_keys_transformed s0 s')
              (loadFile n pf this)"
    unfolding loader_rel_def using loadFile_new_keys by blast
  from transformSourceFile_rel[OF lr new_keys_rel_refl new_keys_rel_trans assms(1)] assms(2)
  show ?thesis by simp
qed

lemma task_step_cases:
  assumes "task_step n pf this url None t s = Some (t', s')"
  obtains
    (call) r evs where "t = Called" "t' = Fetching" "fetchFile n pf url = Some (r, evs)"
      "s' = log (Await_fetchFile (href url) # evs) s"
  | (fail) r where "t = Fetching" "t' = Returned (Inl r)" "s' = s"
  | (seen) p where "t = Fetching" "t' = Returned (Inr p)" "fetched_path n pf url p"
      "store s p \<noteq> None" "s' = log [Store_has p] s"
  | (reserve) p f where "t = Fetching" "t' = Transforming p f" "fetched_path n pf url p"
      "store s p = None"
      "s' = log [Await_transformSourceFile (href (fetch_url f)) p]
              (store_set p [] (log [Store_has p] s))"
  | (transform_fail) p f e e' where "t = Transforming p f" "t' = Returned (Inl e)"
      "transformSourceFile (loadFile n pf this) pf this (fetch_url f) p (fetch_text f) s
       = Some (Inl e', s')"
  | (fill_fail) p f e file_text s2 where "t = Transforming p f" "t' = Returned (Inl e)"
      "transformSourceFile (loadFile n pf this) pf this (fetch_url f) p (fetch_text f) s
       = Some (Inr file_text, s2)" "s' = store_set p file_text s2"
  | (fill) p f file_text s2 where "t = Transforming p f" "t' = Returned (Inr p)"
      "transformSourceFile (loadFile n pf this) pf this (fetch_url f) p (fetch_text f) s
       = Some (Inr file_text, s2)" "s' = store_set p file_text s2"
proof (cases t)
  case Called
  with assms show ?thesis by (auto split: option.splits prod.splits intro: call)
next
  case Fetching
  from assms Fetching obtain x evs where fe: "fetchFile n pf url = Some (x, evs)"
    by (auto split: option.splits)
  show ?thesis
  proof (cases x)
    case (Inl e)
    with assms Fetching fe show ?thesis by (auto intro: fail)
  next
    case f: (Inr f)
    show ?thesis
    proof (cases "urlToFakePath (fetch_url f)")
      case (Inl e)
      with assms Fetching fe f show ?thesis by (auto simp: Let_def intro: fail)
    next
      case p: (Inr p)
      have fp: "fetched_path n pf url p" using fe f p by (auto simp: fetched_path_def)
      show ?thesis
      proof (cases "store s p = None")
        case True
        with assms Fetching fe f p fp show ?thesis
          by (intro reserve[of p f]) (auto simp: Let_def)
      next
        case False
        with assms Fetching fe f p fp show ?thesis
          by (intro seen[of p]) (auto simp: Let_def)
      qed
    qed
  qed
next
  case (Transforming p f)
  from assms Transforming obtain y s2 where
    t: "transformSourceFile (loadFile n pf this) pf this (fetch_url f) p (fetch_text f) s = Some (y, s2)"
    by (auto split: option.splits)
  show ?thesis
  proof (cases y)
    case (Inl e)
    with assms Transforming t show ?thesis
      by (intro transform_fail[of p f "Loading_failed (href url) e" e]) auto
  next
    case ft: (Inr ft)
    show ?thesis
    proof (cases "getDefaultLibLocation this")
      case (Inl e)
      with assms Transforming t ft show ?thesis
        by (intro fill_fail[of p f "Loading_failed (href url) e" ft s2]) auto
    next
      case (Inr lib)
      with assms Transforming t ft show ?thesis by (intro fill[of p f ft s2]) auto
    qed
  qed
next
  case (Returned r)
  with assms show ?thesis by simp
qed

lemma count_list_distinct_le: "distinct xs \<Longrightarrow> count_list xs x \<le> 1"
  by (induction xs) (auto simp: count_list_0_iff)

lemma fetched_path_unique:
  "fetched_path n pf url p \<Longrightarrow> fetched_path n pf url q \<Longrightarrow> p = q"
  by (auto simp: fetched_path_def)

lemma task_ok_mono:
  assumes "task_ok n pf url t s" and "dom (store s) \<subseteq> dom (store s')"
    and "set (transformed (trace s)) \<subseteq> set (transformed (trace s'))"
  shows "task_ok n pf url t s'"
  using assms by (auto simp: task_ok_def split: task.splits sum.splits)

lemma grows_dom: "grows s s' \<Longrightarrow> dom (store s) \<subseteq> dom (store s')"
  by (auto simp: grows_def map_le_def dom_def)

lemma grows_transformed: "grows s s' \<Longrightarrow> set (transformed (trace s)) \<subseteq> set (transformed (trace s'))"
  by (auto simp: grows_def transformed_append)

lemma grows_count: "grows s s' \<Longrightarrow> count_list (trace s) e \<le> count_list (trace s') e"
  by (auto simp: grows_def)

lemma task_step_inv:
  assumes step: "task_step n pf this url None t s = Some (t', s')"
    and sw: "single_writer s" and nk: "new_keys_transformed s0 s"
    and d0: "dom (store s0) \<subseteq> dom (store s)"
    and ok: "task_ok n pf url t s" and ok2: "task_ok n pf url t2 s"
  shows "single_writer s' \<and> new_keys_transformed s0 s' \<and> dom (store s0) \<subseteq> dom (store s') \<and>
         task_ok n pf url t' s' \<and> task_ok n pf url t2 s' \<and>
         count_list (trace s) (Await_fetchFile (href url)) + started t'
           \<le> count_list (trace s') (Await_fetchFile (href url)) + started t"
  using step
proof (cases rule: task_step_cases)
  case (call r evs)
  have tr: "transformed (Await_fetchFile (href url) # evs) = []"
    using transformed_fetch_events[of evs] fetchFile_events[OF call(3)]
    by (simp add: transformed_simps)
  from sw nk d0 ok2 tr show ?thesis
    by (auto simp: call(1,2,4) single_writer_def new_keys_transformed_def transformed_append
        task_ok_def started_def split: task.splits sum.splits)
next
  case (fail r)
  with sw nk d0 ok2 show ?thesis by (simp add: task_ok_def started_def)
next
  case (seen p)
  from sw nk d0 ok2 seen(3,4) show ?thesis
    by (auto simp: seen(1,2,5) single_writer_def new_keys_transformed_def transformed_append
        transformed_simps task_ok_def started_def split: task.splits sum.splits)
next
  case (reserve p f)
  from sw reserve(4) have "p \<notin> set (transformed (trace s))"
    by (auto simp: single_writer_def)
  with sw nk d0 ok2 reserve(3) show ?thesis
    by (auto simp: reserve(1,2,5) single_writer_def new_keys_transformed_def transformed_append
        transformed_simps task_ok_def started_def split: task.splits sum.splits)
next
  case (transform_fail p f e e')
  note g = transformSourceFile_grows[OF transform_fail(3)]
  from transformSourceFile_single_writer[OF transform_fail(3) sw]
    transformSourceFile_new_keys[OF transform_fail(3) nk]
    grows_dom[OF g] d0 task_ok_mono[OF ok2 grows_dom[OF g] grows_transformed[OF g]] grows_count[OF g]
  show ?thesis by (auto simp: transform_fail(1,2) task_ok_def started_def)
next
  case (fill p f file_text s2)
  note g = transformSourceFile_grows[OF fill(3)]
  have sw2: "single_writer s2" by (rule transformSourceFile_single_writer[OF fill(3) sw])
  have nk2: "new_keys_transformed s0 s2" by (rule transformSourceFile_new_keys[OF fill(3) nk])
  have ok2': "task_ok n pf url t2 s2"
    by (rule task_ok_mono[OF ok2 grows_dom[OF g] grows_transformed[OF g]])
  have ok2'': "task_ok n pf url t2 (store_set p file_text s2)"
    by (rule task_ok_mono[OF ok2']) (auto simp: transformed_append)
  from ok fill(1) have fp: "fetched_path n pf url p" "p \<in> set (transformed (trace s))"
    by (simp_all add: task_ok_def)
  from fp(2) grows_transformed[OF g] have p2: "p \<in> set (transformed (trace s2))" by blast
  from d0 grows_dom[OF g] have d2: "dom (store s0) \<subseteq> dom (store s2)" by blast
  have a: "single_writer (store_set p file_text s2)"
    using sw2 by (auto simp: single_writer_def transformed_append transformed_simps)
  have b: "new_keys_transformed s0 (store_set p file_text s2)"
    using nk2 p2 by (auto simp: new_keys_transformed_def transformed_append transformed_simps)
  have c: "dom (store s0) \<subseteq> dom (store (store_set p file_text s2))"
    using d2 by auto
  have d: "task_ok n pf url (Returned (Inr p)) (store_set p file_text s2)"
    using fp(1) by (simp add: task_ok_def)
  have e: "count_list (trace s) (Await_fetchFile (href url))
           \<le> count_list (trace (store_set p file_text s2)) (Await_fetchFile (href url))"
    using grows_count[OF g, of "Await_fetchFile (href url)"] by simp
  from a b c d e ok2'' show ?thesis
    by (simp add: fill(1,2,4) started_def)
next
  case (fill_fail p f e0 file_text s2)
  note g = transformSourceFile_grows[OF fill_fail(3)]
  have sw2: "single_writer s2" by (rule transformSourceFile_single_writer[OF fill_fail(3) sw])
  have nk2: "new_keys_transformed s0 s2" by (rule transformSourceFile_new_keys[OF fill_fail(3) nk])
  have ok2': "task_ok n pf url t2 s2"
    by (rule task_ok_mono[OF ok2 grows_dom[OF g] grows_transformed[OF g]])
  have ok2'': "task_ok n pf url t2 (store_set p file_text s2)"
    by (rule task_ok_mono[OF ok2']) (auto simp: transformed_append)
  from ok fill_fail(1) have "p \<in> set (transformed (trace s))"
    by (simp add: task_ok_def)
  with grows_transformed[OF g] have p2: "p \<in> set (transformed (trace s2))" by blast
  from d0 grows_dom[OF g] have d2: "dom (store s0) \<subseteq> dom (store s2)" by blast
  have a: "single_writer (store_set p file_text s2)"
    using sw2 by (auto simp: single_writer_def transformed_append transformed_simps)
  have b: "new_keys_transformed s0 (store_set p file_text s2)"
    using nk2 p2 by (auto simp: new_keys_transformed_def transformed_append transformed_simps)
  have c: "dom (store s0) \<subseteq> dom (store (store_set p file_text s2))"
    using d2 by auto
  have e: "count_list (trace s) (Await_fetchFile (href url))
           \<le> count_list (trace (store_set p file_text s2)) (Await_fetchFile (href url))"
    using grows_count[OF g, of "Await_fetchFile (href url)"] by simp
  from a b c e ok2'' show ?thesis
    by (simp add: fill_fail(1,2,4) started_def task_ok_def)
qed

lemma interleaved_inv:
  assumes "interleaved n pf this url c c'" and "pair_inv n pf url s0 c"
  shows "pair_inv n pf url s0 c'"
  using assms
proof (induction rule: interleaved.induct)
  case (stop c)
  then show ?case .
next
  case (step_first t1 s t1' s1 t2 c)
  from step_first.prems have
    "single_writer s" "new_keys_transformed s0 s" "dom (store s0) \<subseteq> dom (store s)"
    "task_ok n pf url t1 s" "task_ok n pf url t2 s"
    and c: "count_list (trace s0) (Await_fetchFile (href url)) + started t1 + started t2
          \<le> count_list (trace s) (Await_fetchFile (href url))"
    by (simp_all add: pair_inv_def)
  from task_step_inv[OF step_first.hyps(1) this(1-5)] c
  have "pair_inv n pf url s0 (t1', t2, s1)" by (simp add: pair_inv_def)
  then show ?case by (rule step_first.IH)
next
  case (step_second t2 s t2' s1 t1 c)
  from step_second.prems have
    "single_writer s" "new_keys_transformed s0 s" "dom (store s0) \<subseteq> dom (store s)"
    "task_ok n pf url t2 s" "task_ok n pf url t1 s"
    and c: "count_list (trace s0) (Await_fetchFile (href url)) + started t1 + started t2
          \<le> count_list (trace s) (Await_fetchFile (href url))"
    by (simp_all add: pair_inv_def)
  from task_step_inv[OF step_second.hyps(1) this(1-5)] c
  have "pair_inv n pf url s0 (t1, t2', s1)" by (simp add: pair_inv_def)
  then show ?case by (rule step_second.IH)
qed

lemma pair_inv_initial: "single_writer s \<Longrightarrow> pair_inv n pf url s (Called, Called, s)"
  by (simp add: pair_inv_def new_keys_transformed_def task_ok_def started_def)

lemma interleaved_append:
  assumes "interleaved n pf this url c c'" and "interleaved n pf this url c' c''"
  shows "interleaved n pf this url c c''"
  using assms
proof (induction rule: interleaved.induct)
  case (stop c)
  then show ?case .
next
  case (step_first t1 s t1' s1 t2 c)
  show ?case
    by (rule interleaved.step_first[OF step_first.hyps(1) step_first.IH[OF step_first.prems]])
next
  case (step_second t2 s t2' s1 t1 c)
  show ?case
    by (rule interleaved.step_second[OF step_second.hyps(1) step_second.IH[OF step_second.prems]])
qed

lemma run_task_interleaved_first:
  assumes "loadFile (Suc n) pf this url None s = Some (r, s')"
  shows "interleaved n pf this url (Called, t2, s) (Returned r, t2, s')"
proof -
  from assms have rt: "run_task n pf this url None s = Some (Returned r, s')"
    by (simp add: run_task_loadFile)
  then obtain t1 s1 where 1: "task_step n pf this url None Called s = Some (t1, s1)"
    by (auto simp: run_task_def split: option.splits)
  from rt 1 obtain ta sa where 2: "task_step n pf this url None t1 s1 = Some (ta, sa)"
    by (auto simp: run_task_def split: option.splits)
  show ?thesis
  proof (cases "ta = Returned r \<and> sa = s'")
    case True
    with 1 2 show ?thesis
      by (auto intro!: interleaved.step_first[OF 1] interleaved.step_first[OF 2] interleaved.stop)
  next
    case False
    with rt 1 2 have 3: "task_step n pf this url None ta sa = Some (Returned r, s')"
      by (auto simp: run_task_def split: task.splits)
    show ?thesis
      by (rule interleaved.step_first[OF 1], rule interleaved.step_first[OF 2],
          rule interleaved.step_first[OF 3], rule interleaved.stop)
  qed
qed

lemma run_task_interleaved_second:
  assumes "loadFile (Suc n) pf this url None s = Some (r, s')"
  shows "interleaved n pf this url (t1, Called, s) (t1, Returned r, s')"
proof -
  from assms have rt: "run_task n pf this url None s = Some (Returned r, s')"
    by (simp add: run_task_loadFile)
  then obtain t2 s1 where 1: "task_step n pf this url None Called s = Some (t2, s1)"
    by (auto simp: run_task_def split: option.splits)
  from rt 1 obtain ta sa where 2: "task_step n pf this url None t2 s1 = Some (ta, sa)"
    by (auto simp: run_task_def split: option.splits)
  show ?thesis
  proof (cases "ta = Returned r \<and> sa = s'")
    case True
    with 1 2 show ?thesis
      by (auto intro!: interleaved.step_second[OF 1] interleaved.step_second[OF 2] interleaved.stop)
  next
    case False
    with rt 1 2 have 3: "task_step n pf this url None ta sa = Some (Returned r, s')"
      by (auto simp: run_task_def split: task.splits)
    show ?thesis
      by (rule interleaved.step_second[OF 1], rule interleaved.step_second[OF 2],
          rule interleaved.step_second[OF 3], rule interleaved.stop)
  qed
qed

lemma sequential_is_interleaved:
  assumes "loadFile (Suc n) pf this url None s = Some (r1, s1)"
    and "loadFile (Suc n) pf this url None s1 = Some (r2, s2)"
  shows "interleaved n pf this url (Called, Called, s) (Returned r1, Returned r2, s2)"
  by (rule interleaved_append[OF run_task_interleaved_first[OF assms(1)]
        run_task_interleaved_second[OF assms(2)]])

subsection \<open>A second call after the first\<close>

lemma second_load_only_fetches:
  assumes "loadFile n pf this url asUrl s = Some (Inr p, s1)"
  shows "\<exists>evs. evs \<noteq> [] \<and> (\<forall>e \<in> set evs. is_fetch_event e) \<and>
           loadFile n pf this url asUrl s1 = Some (Inr p, log (evs @ [Store_has p]) s1) \<and>
           (single_writer s \<and> store s p = None \<longrightarrow>
              count_list (transformed (trace (log (evs @ [Store_has p]) s1))) p = 1)"
proof (cases n)
  case 0
  with assms show ?thesis by simp
next
  case (Suc m)
  have again: "\<exists>evs. evs \<noteq> [] \<and> (\<forall>e \<in> set evs. is_fetch_event e) \<and> transformed evs = [] \<and>
           loadFile n pf this url asUrl s1 = Some (Inr p, log (evs @ [Store_has p]) s1)"
    if f: "fetchFile m pf url = Some (Inr f, evs)"
      and u: "urlToFakePath (case asUrl of None \<Rightarrow> fetch_url f | Some a \<Rightarrow> a) = Inr p"
      and st: "store s1 p \<noteq> None" for f evs
  proof -
    let ?evs = "Await_fetchFile (href url) # evs"
    have fe: "\<forall>e \<in> set ?evs. is_fetch_event e"
      using fetchFile_events[OF f] by (auto simp: is_fetch_event_def)
    have "loadFile n pf this url asUrl s1 = Some (Inr p, log (?evs @ [Store_has p]) s1)"
      using f u st by (simp add: Suc Let_def log_log)
    with fe transformed_fetch_events[OF fe] show ?thesis
      by (intro exI[of _ ?evs]) simp
  qed
  from assms[unfolded Suc] show ?thesis
  proof (cases rule: loadFile_Suc_cases)
    case (seen f evs q)
    from seen(4) have q: "q = p" by simp
    from seen(3,5) have "store s1 p \<noteq> None" by (simp add: q)
    from again[OF seen(1) seen(2)[unfolded q] this] obtain evs' where
      e: "evs' \<noteq> []" "\<forall>e \<in> set evs'. is_fetch_event e"
         "loadFile n pf this url asUrl s1 = Some (Inr p, log (evs' @ [Store_has p]) s1)"
      by (elim exE conjE)
    show ?thesis
      by (intro exI[of _ evs'] conjI impI) (use e seen(3) q in simp_all)
  next
    case (loaded f evs q t s2)
    from loaded(5) have q: "q = p" by simp
    from loaded(6) have st: "store s1 p \<noteq> None" by (simp add: q)
    from again[OF loaded(1) loaded(2)[unfolded q] st] obtain evs' where
      e: "evs' \<noteq> []" "\<forall>e \<in> set evs'. is_fetch_event e" "transformed evs' = []"
         "loadFile n pf this url asUrl s1 = Some (Inr p, log (evs' @ [Store_has p]) s1)"
      by (elim exE conjE)
    have one: "count_list (transformed (trace (log (evs' @ [Store_has p]) s1))) p = 1"
      if sw: "single_writer s"
    proof -
      from loadFile_single_writer[OF assms sw] have d: "distinct (transformed (trace s1))"
        by (simp add: single_writer_def)
      from transformSourceFile_grows[OF loaded(4)] obtain rest where
        "trace s2 = trace s @ Await_fetchFile (href url) # evs @ [Store_has p, Store_set p []]
                  @ Await_transformSourceFile (href (fetch_url f)) p # rest"
        by (auto simp: grows_def q)
      then have "p \<in> set (transformed (trace s1))"
        by (simp add: loaded(6) transformed_append transformed_simps)
      with d have "count_list (transformed (trace s1)) p = 1" by (rule count_list_distinct)
      then show ?thesis by (simp add: transformed_append e(3) transformed_simps)
    qed
    show ?thesis
    proof (intro exI[of _ evs'] conjI impI)
      assume "single_writer s \<and> store s p = None"
      then show "count_list (transformed (trace (log (evs' @ [Store_has p]) s1))) p = 1"
        using one by simp
    qed (use e in simp_all)
  qed simp_all
qed

subsection \<open>Loads that return\<close>





subsection \<open>Transforms that do not throw\<close>







subsection \<open>Writes to the store\<close>








subsection \<open>Files that are stored once\<close>












subsection \<open>The small project\<close>







section \<open>The properties\<close>

subsection \<open>Resolution of specifiers\<close>

text \<open>
  C1. The import map has the top-level entry \<open>a/b/\<close> with target \<open>https://x.example/\<close> and
  the scope \<open>https://cdn.example/\<close> with the entry \<open>a/\<close> and target \<open>https://y.example/\<close>.
  For the specifier \<open>a/b/c\<close> imported from \<open>https://cdn.example/app/main.ts\<close> the scope
  applies and its entry matches, yet the resolution uses the top-level target: the scoped
  entry is compared with the length of the prefix found at the top level.
\<close>

theorem scoped_entry_loses_to_longer_top_level_prefix:
  "startsWith (href (https_url ''cdn.example'' ''/app/main.ts'')) ''https://cdn.example/'' \<and>
   prefix_matches ''a/b/c'' ''a/'' \<and>
   new_URL demo_platform (href (https_url ''y.example'' ''/'') @ drop (length ''a/'') ''a/b/c'')
     = Some (https_url ''y.example'' ''/b/c'') \<and>
   resolveSpecifier demo_platform (host_with demo_scoped_map)
     (https_url ''cdn.example'' ''/app/main.ts'') ''a/b/c'' = Inr (https_url ''x.example'' ''/c'')"
  by code_simp

text \<open>
  C7. With the entries \<open>a/\<close> and \<open>a/b/\<close> of the targets \<open>X\<close> and \<open>Y\<close> the specifier
  \<open>a/b/c\<close> resolves to \<open>Y\<close> followed by \<open>c\<close> in both orders. Another import map has the
  entry \<open>p/\<close> with target \<open>a://h\<close> and the entry \<open>p/[/\<close> with
  target \<open>https://y.example/\<close>. Both match the specifier \<open>p/[/c\<close>, and \<open>p/[/\<close> is the
  longest matching prefix. When \<open>p/[/\<close> is listed first the specifier resolves to
  \<open>https://y.example/c\<close>. When \<open>p/\<close> is listed first the loop builds the URL of its
  candidate \<open>a://h[/c\<close> before it reaches the longer prefix; the URL constructor rejects
  that string and the resolution throws. The result depends on the order of the entries.
\<close>

theorem longest_prefix_depends_on_order:
  "resolveSpecifier demo_platform
     (host_with \<lparr>im_imports = Some demo_imports, im_scopes = None\<rparr>)
     (file_url ''/app/a.ts'') ''a/b/c'' = Inr (https_url ''y.example'' ''/c'') \<and>
   resolveSpecifier demo_platform
     (host_with \<lparr>im_imports = Some (rev demo_imports), im_scopes = None\<rparr>)
     (file_url ''/app/a.ts'') ''a/b/c'' = Inr (https_url ''y.example'' ''/c'') \<and>
   prefix_matches ''p/[/c'' ''p/'' \<and> prefix_matches ''p/[/c'' ''p/[/'' \<and>
   new_URL demo_platform (href (https_url ''y.example'' ''/'') @ drop (length ''p/[/'') ''p/[/c'')
     = Some (https_url ''y.example'' ''/c'') \<and>
   resolveSpecifier demo_platform
     (host_with \<lparr>im_imports = Some (rev demo_ordered_imports), im_scopes = None\<rparr>)
     (file_url ''/app/a.ts'') ''p/[/c'' = Inr (https_url ''y.example'' ''/c'') \<and>
   resolveSpecifier demo_platform
     (host_with \<lparr>im_imports = Some demo_ordered_imports, im_scopes = None\<rparr>)
     (file_url ''/app/a.ts'') ''p/[/c'' = Inl (Invalid_URL ''a://h[/c'')"
  by code_simp

text \<open>
  C9. A specifier that no entry of the import map matches (no top-level entry, and no entry
  of a scope that is a prefix of the importing URL): if the URL constructor rejects it and
  it starts neither with \<open>.\<close> nor with \<open>/\<close>, the resolution throws the bare specifier
  error, which \<open>#transformSpecifier\<close> catches: it returns the specifier and leaves the
  store as it is, without calling the loader. Otherwise the result is that of
  \<open>new URL(specifier, sourceUrl)\<close>.
\<close>

theorem unmatched_specifier:
  assumes "\<forall>(q, t) \<in> set (imports_of (importMap this)). \<not> prefix_matches specifier q"
    and "\<forall>(sc, ms) \<in> set (scopes_of (importMap this)).
           startsWith (href sourceUrl) sc \<longrightarrow> (\<forall>(q, t) \<in> set ms. \<not> prefix_matches specifier q)"
  shows "(if new_URL pf specifier = None \<and> \<not> startsWith specifier ''.'' \<and> \<not> startsWith specifier ''/''
          then resolveSpecifier pf this sourceUrl specifier
                 = Inl (Bare_specifier specifier (href sourceUrl)) \<and>
               transformSpecifier load pf this sourceUrl specifier s = Some (specifier, s)
          else resolveSpecifier pf this sourceUrl specifier
                 = (case new_URL_base pf specifier (href sourceUrl) of
                      None \<Rightarrow> Inl (Invalid_URL specifier)
                    | Some u \<Rightarrow> Inr u))"
proof -
  have "\<forall>(q, t) \<in> set (imports_of (importMap this)).
          \<not> entry_matches specifier q (resolvedPrefix initial_resolution)"
    using assms(1) by (auto dest: entry_matches_prefix)
  then have 1: "imports_loop pf specifier (imports_of (importMap this)) initial_resolution
             = Inr initial_resolution"
    by (rule imports_loop_no_match)
  have 2: "scopes_loop pf sourceUrl specifier (scopes_of (importMap this)) initial_resolution
           = Inr initial_resolution"
    by (rule scopes_loop_no_match) (rule assms(2))
  have 3: "resolvedUrl initial_resolution = None"
    by (simp add: initial_resolution_def)
  have r: "resolveSpecifier pf this sourceUrl specifier =
      (if isBareSpecifier pf specifier then Inl (Bare_specifier specifier (href sourceUrl))
       else (case new_URL_base pf specifier (href sourceUrl) of
               None \<Rightarrow> Inl (Invalid_URL specifier)
             | Some u \<Rightarrow> Inr u))"
    by (simp add: resolveSpecifier_def 1 2 3)
  show ?thesis
    by (auto simp: r transformSpecifier_def isBareSpecifier_def split: option.splits)
qed

theorem unmatched_specifier_witness:
  "resolveSpecifier demo_platform demo_host (file_url ''/app/a.ts'') ''lodash''
     = Inl (Bare_specifier ''lodash'' ''file:///app/a.ts'') \<and>
   transformSpecifier (loadFile 3 demo_platform demo_host) demo_platform demo_host
     (file_url ''/app/a.ts'') ''lodash'' new_VfsHost_vfs = Some (''lodash'', new_VfsHost_vfs) \<and>
   resolveSpecifier demo_platform demo_host (file_url ''/app/a.ts'') ''./b.ts''
     = Inr (file_url ''/app/b.ts'')"
proof -
  have e: "imports_of (importMap demo_host) = []" "scopes_of (importMap demo_host) = []"
    by (simp_all add: demo_host_def imports_of_def scopes_of_def)
  have n: "new_URL demo_platform ''lodash'' = None" "new_URL demo_platform ''./b.ts'' = None"
    "new_URL_base demo_platform ''./b.ts'' ''file:///app/a.ts'' = Some (file_url ''/app/b.ts'')"
    by code_simp+
  have h: "href (file_url ''/app/a.ts'') = ''file:///app/a.ts''" by code_simp
  from unmatched_specifier[of demo_host "''lodash''" "file_url ''/app/a.ts''" demo_platform
      "loadFile 3 demo_platform demo_host" new_VfsHost_vfs]
    unmatched_specifier[of demo_host "''./b.ts''" "file_url ''/app/a.ts''" demo_platform
      "loadFile 3 demo_platform demo_host" new_VfsHost_vfs]
  show ?thesis
    by (simp add: e n h startsWith_def)
qed

subsection \<open>Fetching and type declarations\<close>

text \<open>
  C5 (as stated). \<open>https://esm.sh/react\<close> answers with the header \<open>x-typescript-types\<close>.
  The text of the declaration file is stored, under the fake path of the URL of the
  declaration file; nothing is stored under the fake path of the requested URL.
\<close>

theorem declaration_stored_under_its_own_path:
  "map_option fst
     (loadFile 2 demo_platform demo_host (https_url ''esm.sh'' ''/react'') None new_VfsHost_vfs)
     = Some (Inr ''/https/esm.sh/v135/@types/react/index.d.ts'') \<and>
   store_after ''/https/esm.sh/v135/@types/react/index.d.ts''
     (loadFile 2 demo_platform demo_host (https_url ''esm.sh'' ''/react'') None new_VfsHost_vfs)
     = Some ''export declare const version: string;'' \<and>
   urlToFakePath (https_url ''esm.sh'' ''/react'') = Inr ''/https/esm.sh/react'' \<and>
   map_option fst
     (loadFile 2 demo_platform demo_host (https_url ''esm.sh'' ''/react'') None new_VfsHost_vfs)
     \<noteq> Some (urlToFakePath (https_url ''esm.sh'' ''/react'')) \<and>
   store_after ''/https/esm.sh/react''
     (loadFile 2 demo_platform demo_host (https_url ''esm.sh'' ''/react'') None new_VfsHost_vfs)
     = None"
  by code_simp

text \<open>
  C5 (amended). For an \<open>https:\<close> URL whose response carries the header
  \<open>x-typescript-types\<close>, \<open>#fetchFile\<close> fetches the declaration URL as well and returns the
  text of that second response with its URL, to which \<open>.d.ts\<close> is appended if it does not
  end so. \<open>loadFile\<close> stores under the fake path of that declaration URL: what it stores
  is the result of \<open>#transformSourceFile\<close> on the text of the declaration file, which is
  what \<open>toString\<close> gives for that text without any overwrite when there is nothing to
  rewrite. The path is returned when the host has a library location (line 95).
\<close>

theorem declaration_preferred:
  assumes "protocol url = ''https:''"
    and "memoizedFetch pf url = Some resp"
    and "resp_headers resp ''x-typescript-types'' = Some typesUrl"
    and "new_URL_base pf typesUrl (resp_url resp) = Some tu"
    and "memoizedFetch pf tu = Some typesResp"
    and "new_URL pf (if endsWith (resp_url typesResp) ''.d.ts'' then resp_url typesResp
                     else resp_url typesResp @ ''.d.ts'') = Some u"
    and "urlToFakePath u = Inr p"
    and "store s p = None"
    and "getDefaultLibLocation this = Inr lib"
  shows "fetchFile (Suc n) pf url
           = Some (Inr \<lparr>fetch_text = resp_text typesResp, fetch_url = u\<rparr>,
                   [Await_memoizedFetch (href url), Await_memoizedFetch (href tu)]) \<and>
         loadFile (Suc (Suc n)) pf this url None s
           = (case transformSourceFile (loadFile (Suc n) pf this) pf this u p (resp_text typesResp)
                     (log [Await_transformSourceFile (href u) p]
                        (store_set p []
                           (log [Await_fetchFile (href url), Await_memoizedFetch (href url),
                                 Await_memoizedFetch (href tu), Store_has p] s))) of
                None \<Rightarrow> None
              | Some (Inl e, s2) \<Rightarrow> Some (Inl (Loading_failed (href url) e), s2)
              | Some (Inr file_text, s2) \<Rightarrow> Some (Inr p, store_set p file_text s2)) \<and>
         (rewrites_of pf p (resp_text typesResp) = [] \<and> lib_names pf (resp_text typesResp) = [] \<longrightarrow>
            (\<exists>s'. loadFile (Suc (Suc n)) pf this url None s = Some (Inr p, s') \<and>
                  store s' = (store s)(p \<mapsto> MagicString_toString pf (resp_text typesResp) [])))"
proof -
  have np: "protocol url \<noteq> ''file:''" using assms(1) by simp
  have f: "fetchFile (Suc n) pf url
           = Some (Inr \<lparr>fetch_text = resp_text typesResp, fetch_url = u\<rparr>,
                   [Await_memoizedFetch (href url), Await_memoizedFetch (href tu)])"
    using assms(1-6) np by (simp add: fetchFile_https_def Let_def split: if_splits)
  have l: "loadFile (Suc (Suc n)) pf this url None s
           = (case transformSourceFile (loadFile (Suc n) pf this) pf this u p (resp_text typesResp)
                     (log [Await_transformSourceFile (href u) p]
                        (store_set p []
                           (log [Await_fetchFile (href url), Await_memoizedFetch (href url),
                                 Await_memoizedFetch (href tu), Store_has p] s))) of
                None \<Rightarrow> None
              | Some (Inl e, s2) \<Rightarrow> Some (Inl (Loading_failed (href url) e), s2)
              | Some (Inr file_text, s2) \<Rightarrow> Some (Inr p, store_set p file_text s2))"
    using assms(7,8,9)
    by (simp add: f Let_def log_log del: fetchFile.simps split: option.splits sum.splits prod.splits)
  have "\<exists>s'. loadFile (Suc (Suc n)) pf this url None s = Some (Inr p, s') \<and>
                  store s' = (store s)(p \<mapsto> MagicString_toString pf (resp_text typesResp) [])"
    if "rewrites_of pf p (resp_text typesResp) = []" "lib_names pf (resp_text typesResp) = []"
    unfolding l transformSourceFile_no_rewrites[OF that] by simp
  with f l show ?thesis by blast
qed

theorem declaration_preferred_witness:
  "fetchFile 1 demo_platform (https_url ''esm.sh'' ''/react'')
     = Some (Inr \<lparr>fetch_text = ''export declare const version: string;'',
                  fetch_url = https_url ''esm.sh'' ''/v135/@types/react/index.d.ts''\<rparr>,
             [Await_memoizedFetch ''https://esm.sh/react'',
              Await_memoizedFetch ''https://esm.sh/v135/@types/react/index.d.ts'']) \<and>
   (\<exists>s'. loadFile 2 demo_platform demo_host (https_url ''esm.sh'' ''/react'') None new_VfsHost_vfs
            = Some (Inr ''/https/esm.sh/v135/@types/react/index.d.ts'', s') \<and>
          store s' = [''/https/esm.sh/v135/@types/react/index.d.ts''
                        \<mapsto> ''export declare const version: string;''])"
proof -
  let ?resp = "\<lparr>resp_text = ''export default {};'', resp_url = ''https://esm.sh/react'',
        resp_headers = [''x-typescript-types'' \<mapsto> ''https://esm.sh/v135/@types/react/index.d.ts'']\<rparr>"
  let ?types = "\<lparr>resp_text = ''export declare const version: string;'',
        resp_url = ''https://esm.sh/v135/@types/react/index.d.ts'',
        resp_headers = Map.empty\<rparr>"
  let ?tu = "https_url ''esm.sh'' ''/v135/@types/react/index.d.ts''"
  have 1: "protocol (https_url ''esm.sh'' ''/react'') = ''https:''" by code_simp
  have 2: "memoizedFetch demo_platform (https_url ''esm.sh'' ''/react'') = Some ?resp"
    by (simp add: demo_platform_def demo_responses_def https_url_def)
  have 3: "resp_headers ?resp ''x-typescript-types'' = Some ''https://esm.sh/v135/@types/react/index.d.ts''"
    by simp
  have 4: "new_URL_base demo_platform ''https://esm.sh/v135/@types/react/index.d.ts'' (resp_url ?resp) = Some ?tu"
    by (simp add: demo_platform_def demo_relative_def)
  have 5: "memoizedFetch demo_platform ?tu = Some ?types"
    by (simp add: demo_platform_def demo_responses_def https_url_def)
  have 6: "new_URL demo_platform (if endsWith (resp_url ?types) ''.d.ts'' then resp_url ?types
                     else resp_url ?types @ ''.d.ts'') = Some ?tu"
    by (simp add: demo_platform_def demo_absolute_def https_url_def endsWith_def)
  have 7: "urlToFakePath ?tu = Inr ''/https/esm.sh/v135/@types/react/index.d.ts''"
    by code_simp
  have 8: "store new_VfsHost_vfs ''/https/esm.sh/v135/@types/react/index.d.ts'' = None"
    by (simp add: new_VfsHost_vfs_def)
  have h: "getDefaultLibLocation demo_host
           = Inr ''/https/raw.githubusercontent.com/denoland/deno/main/cli/tsc/dts''"
    by code_simp
  have ts: "MagicString_toString demo_platform ''export declare const version: string;'' []
            = ''export declare const version: string;''"
    by code_simp
  have 9: "rewrites_of demo_platform ''/https/esm.sh/v135/@types/react/index.d.ts'' (resp_text ?types) = []
     \<and> lib_names demo_platform (resp_text ?types) = []"
    by (simp add: rewrites_of_def jsx_rewrites_def path_rewrites_def node_rewrites_def lib_names_def
        demo_platform_def demo_trees_def)
  note th = declaration_preferred[OF 1 2 3 4 5 6 7 8 h, of 0]
  have a: "fetchFile 1 demo_platform (https_url ''esm.sh'' ''/react'')
     = Some (Inr \<lparr>fetch_text = ''export declare const version: string;'',
                  fetch_url = https_url ''esm.sh'' ''/v135/@types/react/index.d.ts''\<rparr>,
             [Await_memoizedFetch ''https://esm.sh/react'',
              Await_memoizedFetch ''https://esm.sh/v135/@types/react/index.d.ts''])"
    using th[THEN conjunct1] by (simp add: https_url_def del: fetchFile.simps)
  have c: "\<exists>s'. loadFile 2 demo_platform demo_host (https_url ''esm.sh'' ''/react'') None new_VfsHost_vfs
            = Some (Inr ''/https/esm.sh/v135/@types/react/index.d.ts'', s') \<and>
          store s' = [''/https/esm.sh/v135/@types/react/index.d.ts''
                        \<mapsto> ''export declare const version: string;'']"
    using th[THEN conjunct2, THEN conjunct2, rule_format, OF 9]
    by (simp add: numeral_2_eq_2 new_VfsHost_vfs_def ts del: fetchFile.simps loadFile.simps)
  from a c show ?thesis ..
qed

text \<open>
  C6. \<open>https://example.com/mod\<close> answers without the header \<open>x-typescript-types\<close> and its
  URL has no script extension. The URL that \<open>#fetchFile\<close> returns is the URL of the
  response as it is: the string with the suffix \<open>.ts\<close> is computed and not used.
\<close>

theorem guessed_suffix_not_returned:
  "\<not> test_script_extension ''https://example.com/mod'' \<and>
   fetchFile 1 demo_platform (https_url ''example.com'' ''/mod'')
     = Some (Inr \<lparr>fetch_text = ''export {};'', fetch_url = https_url ''example.com'' ''/mod''\<rparr>,
             [Await_memoizedFetch ''https://example.com/mod'']) \<and>
   \<not> endsWith (href (https_url ''example.com'' ''/mod'')) ''.ts''"
  by code_simp

subsection \<open>Loading: order of effects, repeated loads, cycles\<close>

text \<open>
  C2 (as stated). \<open>/app/d.ts\<close> is not in the store. The trace of its load begins with two
  awaits, of \<open>#fetchFile\<close> and in it of \<open>Deno.readTextFile\<close>; the reservation comes after
  them, so the awaits before the reservation are not none.
\<close>

theorem reservation_not_before_first_await:
  \<open>store new_VfsHost_vfs ''/app/d.ts'' = None \<and>
   trace_after (loadFile 2 demo_platform demo_host (file_url ''/app/d.ts'') None new_VfsHost_vfs)
     = Some [Await_fetchFile ''file:///app/d.ts'', Await_readTextFile ''file:///app/d.ts'',
             Store_has ''/app/d.ts'', Store_set ''/app/d.ts'' [],
             Await_transformSourceFile ''file:///app/d.ts'' ''/app/d.ts'',
             Store_set ''/app/d.ts'' ''export {};''] \<and>
   map_option (awaits_before_reservation ''/app/d.ts'')
     (trace_after (loadFile 2 demo_platform demo_host (file_url ''/app/d.ts'') None new_VfsHost_vfs))
     = Some [Await_fetchFile ''file:///app/d.ts'', Await_readTextFile ''file:///app/d.ts'']\<close>
  by code_simp

text \<open>
  C2 (amended). When \<open>loadFile\<close> returns a path that was not in the store, its part of the
  trace begins with the await of \<open>#fetchFile\<close>, followed by the awaits inside
  \<open>#fetchFile\<close>; then come the call of \<open>has\<close> and, next to it with no await in between,
  the \<open>set\<close> that reserves the path with the empty text.
\<close>

theorem reservation_follows_fetch:
  assumes "loadFile n pf this url asUrl s = Some (Inr p, s')" and "store s p = None"
  shows "\<exists>evs rest. (\<forall>e \<in> set evs. is_await e) \<and>
           trace s' = trace s @ Await_fetchFile (href url) # evs
                        @ [Store_has p, Store_set p []] @ rest"
proof (cases n)
  case 0
  with assms show ?thesis by simp
next
  case (Suc m)
  from assms(1)[unfolded Suc] show ?thesis
  proof (cases rule: loadFile_Suc_cases)
    case (seen f evs q)
    with assms(2) show ?thesis by simp
  next
    case (loaded f evs q t s2)
    from transformSourceFile_grows[OF loaded(4)] obtain rest where
      "trace s2 = trace s @ Await_fetchFile (href url) # evs @ [Store_has q, Store_set q []]
                  @ Await_transformSourceFile (href (fetch_url f)) q # rest"
      by (auto simp: grows_def)
    moreover have "\<forall>e \<in> set evs. is_await e"
      using fetchFile_events[OF loaded(1)] is_fetch_event_await by blast
    ultimately show ?thesis using loaded(5,6) by auto
  qed simp_all
qed

theorem reservation_follows_fetch_witness:
  \<open>\<exists>evs rest. (\<forall>e \<in> set evs. is_await e) \<and>
      [Await_fetchFile ''file:///app/d.ts'', Await_readTextFile ''file:///app/d.ts'',
       Store_has ''/app/d.ts'', Store_set ''/app/d.ts'' [],
       Await_transformSourceFile ''file:///app/d.ts'' ''/app/d.ts'',
       Store_set ''/app/d.ts'' ''export {};'']
      = Await_fetchFile (href (file_url ''/app/d.ts'')) # evs
          @ [Store_has ''/app/d.ts'', Store_set ''/app/d.ts'' []] @ rest\<close>
proof -
  let ?s' = \<open>\<lparr>store = [''/app/d.ts'' \<mapsto> ''export {};''],
              trace = [Await_fetchFile ''file:///app/d.ts'', Await_readTextFile ''file:///app/d.ts'',
                Store_has ''/app/d.ts'', Store_set ''/app/d.ts'' [],
                Await_transformSourceFile ''file:///app/d.ts'' ''/app/d.ts'',
                Store_set ''/app/d.ts'' ''export {};'']\<rparr>\<close>
  have l: "loadFile 2 demo_platform demo_host (file_url ''/app/d.ts'') None new_VfsHost_vfs
           = Some (Inr ''/app/d.ts'', ?s')"
    by (simp add: numeral_2_eq_2 demo_platform_def demo_host_def demo_files_def file_url_def
        new_VfsHost_vfs_def urlToFakePath_def transformSourceFile_def jsx_rewrites_def
        path_rewrites_def lib_names_def node_rewrites_def demo_trees_def demo_toString_def
        log_def store_set_def getDefaultLibLocation_def deno_defaultLibDir_def)
  have u: "store new_VfsHost_vfs ''/app/d.ts'' = None" by (simp add: new_VfsHost_vfs_def)
  from reservation_follows_fetch[OF l u] show ?thesis
    by (simp add: new_VfsHost_vfs_def)
qed

text \<open>
  C3 (as stated). Two calls of \<open>loadFile\<close> for \<open>/app/d.ts\<close>, one after the other: both
  return the same path, and the file is read from the disk twice.
\<close>

theorem second_load_reads_the_file_again:
  "map_option fst (loadFile_twice 2 demo_platform demo_host (file_url ''/app/d.ts'') new_VfsHost_vfs)
     = Some (Inr ''/app/d.ts'') \<and>
   map_option (fst \<circ> snd)
     (loadFile_twice 2 demo_platform demo_host (file_url ''/app/d.ts'') new_VfsHost_vfs)
     = Some (Inr ''/app/d.ts'') \<and>
   map_option (count_fetches ''file:///app/d.ts'' \<circ> trace \<circ> snd \<circ> snd)
     (loadFile_twice 2 demo_platform demo_host (file_url ''/app/d.ts'') new_VfsHost_vfs)
     = Some 2"
  by code_simp

text \<open>
  C3 (amended). Two calls of \<open>loadFile\<close> for one URL, run one after the other or
  interleaved at their suspension points, both to their return: if both return a path it
  is the same path; no path has been transformed more than once, and a path that was not
  in the store before and is returned by one of the calls has been transformed exactly
  once; each of the two calls has awaited \<open>#fetchFile\<close> for the URL, so the fetch ran at
  least twice.
\<close>

theorem two_loads_of_one_url:
  assumes "interleaved n pf this url (Called, Called, s) (Returned r1, Returned r2, s')"
    and "single_writer s"
  shows "(\<forall>p q. r1 = Inr p \<and> r2 = Inr q \<longrightarrow> p = q) \<and>
         (\<forall>p. count_list (transformed (trace s')) p \<le> 1) \<and>
         (\<forall>p. (r1 = Inr p \<or> r2 = Inr p) \<and> store s p = None \<longrightarrow>
              count_list (transformed (trace s')) p = 1) \<and>
         count_list (trace s) (Await_fetchFile (href url)) + 2
           \<le> count_list (trace s') (Await_fetchFile (href url))"
proof -
  from interleaved_inv[OF assms(1) pair_inv_initial[OF assms(2)]]
  have sw: "single_writer s'" and nk: "new_keys_transformed s s'"
    and ok1: "task_ok n pf url (Returned r1) s'" and ok2: "task_ok n pf url (Returned r2) s'"
    and c: "count_list (trace s) (Await_fetchFile (href url)) + 2
           \<le> count_list (trace s') (Await_fetchFile (href url))"
    by (simp_all add: pair_inv_def started_def)
  from sw have d: "distinct (transformed (trace s'))" by (simp add: single_writer_def)
  have same: "\<forall>p q. r1 = Inr p \<and> r2 = Inr q \<longrightarrow> p = q"
    using ok1 ok2 by (auto simp: task_ok_def dest: fetched_path_unique)
  have once: "count_list (transformed (trace s')) p = 1"
    if "(r1 = Inr p \<or> r2 = Inr p) \<and> store s p = None" for p
  proof -
    from that ok1 ok2 have "p \<in> dom (store s')" by (auto simp: task_ok_def)
    with nk that have "p \<in> set (transformed (trace s'))"
      by (auto simp: new_keys_transformed_def)
    with d show ?thesis by (rule count_list_distinct)
  qed
  from same count_list_distinct_le[OF d] once c show ?thesis by blast
qed

theorem two_loads_of_one_url_witness:
  \<open>count_list (transformed
       [Await_fetchFile ''file:///app/d.ts'', Await_readTextFile ''file:///app/d.ts'',
        Await_fetchFile ''file:///app/d.ts'', Await_readTextFile ''file:///app/d.ts'',
        Store_has ''/app/d.ts'', Store_set ''/app/d.ts'' [],
        Await_transformSourceFile ''file:///app/d.ts'' ''/app/d.ts'',
        Store_has ''/app/d.ts'', Store_set ''/app/d.ts'' ''export {};'']) ''/app/d.ts'' = 1 \<and>
   2 \<le> count_list
       [Await_fetchFile ''file:///app/d.ts'', Await_readTextFile ''file:///app/d.ts'',
        Await_fetchFile ''file:///app/d.ts'', Await_readTextFile ''file:///app/d.ts'',
        Store_has ''/app/d.ts'', Store_set ''/app/d.ts'' [],
        Await_transformSourceFile ''file:///app/d.ts'' ''/app/d.ts'',
        Store_has ''/app/d.ts'', Store_set ''/app/d.ts'' ''export {};'']
       (Await_fetchFile (href (file_url ''/app/d.ts'')))\<close>
proof -
  let ?d = "file_url ''/app/d.ts''"
  let ?f = \<open>\<lparr>fetch_text = ''export {};'', fetch_url = ?d\<rparr>\<close>
  let ?e1 = "[Await_fetchFile ''file:///app/d.ts'', Await_readTextFile ''file:///app/d.ts'']"
  let ?e3 = "?e1 @ ?e1 @ [Store_has ''/app/d.ts'', Store_set ''/app/d.ts'' [],
               Await_transformSourceFile ''file:///app/d.ts'' ''/app/d.ts'']"
  let ?s1 = "\<lparr>store = Map.empty, trace = ?e1\<rparr>"
  let ?s2 = "\<lparr>store = Map.empty, trace = ?e1 @ ?e1\<rparr>"
  let ?s3 = "\<lparr>store = [''/app/d.ts'' \<mapsto> []], trace = ?e3\<rparr>"
  let ?s4 = "\<lparr>store = [''/app/d.ts'' \<mapsto> []], trace = ?e3 @ [Store_has ''/app/d.ts'']\<rparr>"
  let ?s5 = \<open>\<lparr>store = [''/app/d.ts'' \<mapsto> ''export {};''],
              trace = ?e3 @ [Store_has ''/app/d.ts'', Store_set ''/app/d.ts'' ''export {};'']\<rparr>\<close>
  note defs = demo_platform_def demo_host_def demo_files_def file_url_def new_VfsHost_vfs_def
    urlToFakePath_def transformSourceFile_def jsx_rewrites_def path_rewrites_def lib_names_def
    node_rewrites_def demo_trees_def demo_toString_def log_def store_set_def
    getDefaultLibLocation_def deno_defaultLibDir_def
  have 1: "task_step 1 demo_platform demo_host ?d None Called new_VfsHost_vfs = Some (Fetching, ?s1)"
    by (simp add: defs)
  have 2: "task_step 1 demo_platform demo_host ?d None Called ?s1 = Some (Fetching, ?s2)"
    by (simp add: defs)
  have 3: "task_step 1 demo_platform demo_host ?d None Fetching ?s2
           = Some (Transforming ''/app/d.ts'' ?f, ?s3)"
    by (simp add: defs)
  have 4: "task_step 1 demo_platform demo_host ?d None Fetching ?s3
           = Some (Returned (Inr ''/app/d.ts''), ?s4)"
    by (simp add: defs)
  have 5: "task_step 1 demo_platform demo_host ?d None (Transforming ''/app/d.ts'' ?f) ?s4
           = Some (Returned (Inr ''/app/d.ts''), ?s5)"
    by (simp add: defs)
  have il: "interleaved 1 demo_platform demo_host ?d (Called, Called, new_VfsHost_vfs)
              (Returned (Inr ''/app/d.ts''), Returned (Inr ''/app/d.ts''), ?s5)"
    by (rule interleaved.step_first[OF 1], rule interleaved.step_second[OF 2],
        rule interleaved.step_first[OF 3], rule interleaved.step_second[OF 4],
        rule interleaved.step_first[OF 5], rule interleaved.stop)
  have sw: "single_writer new_VfsHost_vfs"
    by (simp add: new_VfsHost_vfs_def single_writer_def transformed_def)
  have u: "store new_VfsHost_vfs ''/app/d.ts'' = None" "trace new_VfsHost_vfs = []"
    by (simp_all add: new_VfsHost_vfs_def)
  note th = two_loads_of_one_url[OF il sw]
  from th[THEN conjunct2, THEN conjunct2, THEN conjunct1, rule_format, of "''/app/d.ts''"] u
  have a: "count_list (transformed (trace ?s5)) ''/app/d.ts'' = 1" by simp
  from th[THEN conjunct2, THEN conjunct2, THEN conjunct2] u
  have b: "2 \<le> count_list (trace ?s5) (Await_fetchFile (href ?d))" by simp
  from a b show ?thesis by simp
qed



subsection \<open>Failures of single specifiers\<close>




subsection \<open>Program construction\<close>

text \<open>
  C10. \<open>createDenoProgram\<close> puts \<open>/package.json\<close> into the store before it loads anything,
  and every load keeps the entries that are already in the store. So in the store of the
  host after the initialisation, and after any loads of library files and of files that
  follow it, the key \<open>/package.json\<close> has the content \<open>{ "type": "module" }\<close> and
  \<open>fileExists("/package.json")\<close> returns true.
\<close>

theorem package_json_exists:
  assumes "built pf (createDenoProgram_host root im) s"
  shows \<open>store s ''/package.json'' = Some ''{ "type": "module" }'' \<and>
         fileExists pf (createDenoProgram_host root im) s ''/package.json'' = Inr True\<close>
proof -
  from assms have \<open>store s ''/package.json'' = Some ''{ "type": "module" }''\<close>
  proof (induction rule: built.induct)
    case init
    show ?case by (simp add: createDenoProgram_init_def)
  next
    case (lib s n libName r s')
    from loadLibFile_grows[OF lib.hyps(2)] lib.IH show ?case by (rule grows_lookup)
  next
    case (entry s n url asUrl r' s')
    from loadFile_grows[OF entry.hyps(2)] entry.IH show ?case by (rule grows_lookup)
  qed
  then show ?thesis by (simp add: fileExists_package_json)
qed

theorem package_json_exists_witness:
  \<open>store createDenoProgram_init ''/package.json'' = Some ''{ "type": "module" }'' \<and>
   fileExists demo_platform (createDenoProgram_host (file_url ''/app'') \<lparr>im_imports = None, im_scopes = None\<rparr>)
     createDenoProgram_init ''/package.json'' = Inr True\<close>
  by (rule package_json_exists) (rule built.init)

end
